theory Spec2Isabelle
  imports Complex_Main
begin

section \<open>The merge engine of \<open>plugins/module_utils/data_merge_utils.py\<close>\<close>

text \<open>
  The class \<open>DataMergeUtils\<close> reconciles a \<open>current\<close> tree of dictionaries, lists and
  atoms with an \<open>expected\<close> tree, under a \<open>merge_type\<close> (\<open>identic\<close>, \<open>present\<close>,
  \<open>absent\<close>) and a \<open>list_diff_type\<close> (\<open>value\<close>, \<open>index\<close>). This theory embeds the
  class as HOL functions and proves properties of them.

  Conventions of the embedding:
  \<^item> a Python value is a \<open>pyval\<close>: \<open>None\<close>, a \<open>bool\<close>, an \<open>int\<close> (unbounded), a
    \<open>float\<close>, a \<open>str\<close>, a \<open>list\<close> or a \<open>dict\<close>. A \<open>float\<close> is modelled by the
    real number it stands for; the infinities and NaN are not modelled;
  \<^item> a dictionary is an association list in insertion order, as Python's \<open>dict\<close> keeps
    it; its keys are integers or strings (\<open>pykey\<close>). A Python dictionary never holds a
    key twice: \<open>wf_val\<close> below is that representation invariant;
  \<^item> an exception is a value \<open>Inl e\<close> of the result type \<open>error + 'a\<close>;
  \<^item> in the merge on values, \<open>deepcopy\<close> is the identity (a value has no identity of its
    own there) and the interpreter's limit on the depth of recursion is not modelled;
  \<^item> the merge on a store of objects gives every dictionary and list an address, so that
    sharing and in-place changes are visible, and it counts the depth of recursion.
\<close>

subsection \<open>Values\<close>

datatype pykey = KInt int | KStr string

datatype pyval =
    PNone
  | PBool bool
  | PInt int
  | PFloat real
  | PStr string
  | PList "pyval list"
  | PDict "(pykey \<times> pyval) list"

type_synonym pydict = "(pykey \<times> pyval) list"

text \<open>The exceptions the class can raise, directly or through a built-in operation.\<close>

datatype error = ValueError | TypeError | AttributeError | KeyError | RecursionError

text \<open>
  \<open>type(x)\<close> and \<open>isinstance(x, t)\<close>. Among the modelled types the only subclass
  relation is \<open>bool\<close> below \<open>int\<close>.
\<close>

datatype pytype = TNone | TBool | TInt | TFloat | TStr | TList | TDict

fun type_of :: "pyval \<Rightarrow> pytype" where
  "type_of PNone = TNone"
| "type_of (PBool b) = TBool"
| "type_of (PInt i) = TInt"
| "type_of (PFloat x) = TFloat"
| "type_of (PStr s) = TStr"
| "type_of (PList xs) = TList"
| "type_of (PDict d) = TDict"

definition isinstance :: "pyval \<Rightarrow> pytype \<Rightarrow> bool" where
  "isinstance v t = (type_of v = t \<or> (type_of v = TBool \<and> t = TInt))"

text \<open>\<open>isinstance(x, (dict, list))\<close>\<close>

fun is_container :: "pyval \<Rightarrow> bool" where
  "is_container (PList xs) = True"
| "is_container (PDict d) = True"
| "is_container v = False"

text \<open>
  Python's \<open>==\<close> on the modelled values: atoms by value (a \<open>bool\<close> compares as the
  integer 0 or 1, an \<open>int\<close> and a \<open>float\<close> as numbers), lists element by element in
  order, dictionaries as unordered maps (the same number of keys, and every key of the left
  operand bound to an equal value in the right one). \<open>py_eq_at k v b\<close> is "\<open>k\<close> is a key of \<open>b\<close> and \<open>v == b[k]\<close>".
\<close>

fun py_eq :: "pyval \<Rightarrow> pyval \<Rightarrow> bool"
  and py_eq_list :: "pyval list \<Rightarrow> pyval list \<Rightarrow> bool"
  and py_eq_items :: "pydict \<Rightarrow> pydict \<Rightarrow> bool"
  and py_eq_at :: "pykey \<Rightarrow> pyval \<Rightarrow> pydict \<Rightarrow> bool"
where
  "py_eq PNone PNone = True"
| "py_eq (PBool a) (PBool b) = (a = b)"
| "py_eq (PBool a) (PInt j) = ((if a then 1 else 0) = j)"
| "py_eq (PInt i) (PBool b) = (i = (if b then 1 else 0))"
| "py_eq (PInt i) (PInt j) = (i = j)"
| "py_eq (PBool a) (PFloat y) = ((if a then 1 else 0) = y)"
| "py_eq (PFloat x) (PBool b) = (x = (if b then 1 else 0))"
| "py_eq (PInt i) (PFloat y) = (of_int i = y)"
| "py_eq (PFloat x) (PInt j) = (x = of_int j)"
| "py_eq (PFloat x) (PFloat y) = (x = y)"
| "py_eq (PStr s) (PStr t) = (s = t)"
| "py_eq (PList xs) (PList ys) = py_eq_list xs ys"
| "py_eq (PDict a) (PDict b) = (length a = length b \<and> py_eq_items a b)"
| "py_eq _ _ = False"
| "py_eq_list [] [] = True"
| "py_eq_list (x # xs) (y # ys) = (py_eq x y \<and> py_eq_list xs ys)"
| "py_eq_list _ _ = False"
| "py_eq_items [] b = True"
| "py_eq_items ((k, v) # a) b = (py_eq_at k v b \<and> py_eq_items a b)"
| "py_eq_at k v [] = False"
| "py_eq_at k v ((k', w) # b) = (if k' = k then py_eq v w else py_eq_at k v b)"

text \<open>\<open>elem in xs\<close>: some item of \<open>xs\<close> equals \<open>elem\<close>.\<close>

definition py_in :: "pyval \<Rightarrow> pyval list \<Rightarrow> bool" where
  "py_in elem xs = list_ex (\<lambda>x. py_eq x elem) xs"

subsection \<open>Dictionary operations\<close>

text \<open>
  \<open>dict_get d k\<close> is the lookup itself (\<open>None\<close> for a missing key, where \<open>d[k]\<close>
  raises \<open>KeyError\<close>); \<open>py_get d k\<close> is \<open>d.get(k)\<close>, which answers Python's \<open>None\<close>
  for a missing key; \<open>dict_set d k v\<close> is \<open>d[k] = v\<close>, which keeps the position of a key
  already there and appends a new one; \<open>dict_pop d k\<close> is \<open>d.pop(k)\<close>, which
  raises \<open>KeyError\<close> for a missing key.
\<close>

definition dict_get :: "(pykey \<times> 'v) list \<Rightarrow> pykey \<Rightarrow> 'v option" where
  "dict_get d k = map_of d k"

definition py_get :: "pydict \<Rightarrow> pykey \<Rightarrow> pyval" where
  "py_get d k = (case dict_get d k of None \<Rightarrow> PNone | Some v \<Rightarrow> v)"

fun dict_set :: "(pykey \<times> 'v) list \<Rightarrow> pykey \<Rightarrow> 'v \<Rightarrow> (pykey \<times> 'v) list" where
  "dict_set [] k v = [(k, v)]"
| "dict_set ((k', w) # d) k v =
     (if k' = k then (k', v) # d else (k', w) # dict_set d k v)"

definition dict_pop :: "(pykey \<times> 'v) list \<Rightarrow> pykey \<Rightarrow> error + (pykey \<times> 'v) list" where
  "dict_pop d k =
     (case dict_get d k of
        None \<Rightarrow> Inl KeyError
      | Some v \<Rightarrow> Inr (filter (\<lambda>kv. fst kv \<noteq> k) d))"

text \<open>
  \<open>_convert_list_to_dict\<close> is \<open>dict(list(enumerate(the_list)))\<close> and
  \<open>_convert_dict_to_list\<close> is \<open>[val for key, val in the_dict.items()]\<close>: the values
  in the dictionary's own (insertion) order.
\<close>

definition convert_list_to_dict :: "'v list \<Rightarrow> (pykey \<times> 'v) list" where
  "convert_list_to_dict the_list =
     map (\<lambda>(i, v). (KInt (int i), v)) (enumerate 0 the_list)"

definition convert_dict_to_list :: "(pykey \<times> 'v) list \<Rightarrow> 'v list" where
  "convert_dict_to_list the_dict = map snd the_dict"

subsection \<open>Configuration\<close>

text \<open>
  The two private fields of the object. The property setters validate the value they are
  given; \<open>__init__\<close> assigns \<open>merge_type\<close> through its setter and writes the field
  \<open>_list_diff_type\<close> directly:
  \<^verbatim>\<open>
    def __init__(self, merge_type, list_diff_type='value'):
        self.merge_type = merge_type
        self._list_diff_type = list_diff_type
  \<close>
\<close>

record config =
  merge_type :: string
  list_diff_type :: string

definition merge_type_setter :: "string \<Rightarrow> config \<Rightarrow> error + config" where
  "merge_type_setter v self =
     (if v \<notin> set [''identic'', ''present'', ''absent''] then Inl ValueError
      else Inr (self\<lparr>merge_type := v\<rparr>))"

definition list_diff_type_setter :: "string \<Rightarrow> config \<Rightarrow> error + config" where
  "list_diff_type_setter v self =
     (if v \<notin> set [''value'', ''index''] then Inl ValueError
      else Inr (self\<lparr>list_diff_type := v\<rparr>))"

text \<open>The object before \<open>__init__\<close> has run: no field holds a mode yet.\<close>

definition blank :: config where
  "blank = \<lparr>merge_type = [], list_diff_type = []\<rparr>"

definition init :: "string \<Rightarrow> string \<Rightarrow> error + config" where
  "init mt ldt =
     (case merge_type_setter mt blank of
        Inl err \<Rightarrow> Inl err
      | Inr self \<Rightarrow> Inr (self\<lparr>list_diff_type := ldt\<rparr>))"

subsection \<open>The merge\<close>

text \<open>
  \<open>_get_new_merged_list_with_value_diff\<close>:
  \<^verbatim>\<open>
    if self._merge_type == 'present':
        return current + [elem for elem in expected if elem not in current]
    if self._merge_type == 'absent':
        return [elem for elem in current if elem not in expected]
    raise TypeError("Unexpected merge_type")
  \<close>
\<close>

definition get_new_merged_list_with_value_diff ::
  "config \<Rightarrow> pyval list \<Rightarrow> pyval list \<Rightarrow> error + pyval list" where
  "get_new_merged_list_with_value_diff cfg current expected =
     (if merge_type cfg = ''present'' then
        Inr (current @ filter (\<lambda>elem. \<not> py_in elem current) expected)
      else if merge_type cfg = ''absent'' then
        Inr (filter (\<lambda>elem. \<not> py_in elem expected) current)
      else Inl TypeError)"

text \<open>
  The measure of the recursion: the number of constructors and items of \<open>expected\<close>.
  Every recursive call is on a part of \<open>expected\<close>, whatever \<open>current\<close> is.
\<close>

fun weight :: "pyval \<Rightarrow> nat"
  and weight_list :: "pyval list \<Rightarrow> nat"
  and weight_items :: "pydict \<Rightarrow> nat"
where
  "weight (PList xs) = Suc (weight_list xs)"
| "weight (PDict d) = Suc (weight_items d)"
| "weight v = 0"
| "weight_list [] = 0"
| "weight_list (x # xs) = Suc (weight x + weight_list xs)"
| "weight_items [] = 0"
| "weight_items ((k, v) # d) = Suc (weight v + weight_items d)"

lemma weight_items_enumerate:
  "weight_items (map (\<lambda>(i, v). (KInt (int i), v)) (enumerate n xs)) = weight_list xs"
  by (induction xs arbitrary: n) simp_all

lemma weight_convert_list_to_dict [simp]:
  "weight_items (convert_list_to_dict xs) = weight_list xs"
  by (simp add: convert_list_to_dict_def weight_items_enumerate)

text \<open>
  The four methods that call each other, and the loop of \<open>get_new_merged_dict\<close> as a
  function of its own (\<open>merged_dict_loop\<close>), which threads the local variable
  \<open>merged\<close> through the items of \<open>expected\<close> that are still to be visited.

  \<^item> The decorator \<open>_check_identic\<close> wraps \<open>get_new_merged_data\<close>,
    \<open>get_new_merged_dict\<close> and \<open>get_new_merged_list\<close>: its test is the first
    \<open>if\<close> of each of them here.
  \<^item> \<open>get_new_merged_dict\<close> and \<open>get_new_merged_list\<close> have the types their
    signatures declare (two dictionaries, two lists). The dispatcher reaches
    \<open>get_new_merged_list\<close> when \<open>isinstance(current, type(expected))\<close> and
    \<open>isinstance(current, list)\<close>, that is with two lists. It reaches
    \<open>get_new_merged_dict\<close> in every other case that passed the first test: with two
    dictionaries, or with two operands that are neither lists nor dictionaries, and then
    \<open>expected.keys()\<close> raises \<open>AttributeError\<close> (\<open>isinstance_cases\<close> below shows
    that there is no other case).
  \<^item> The loop \<open>for key in expected.keys()\<close> walks the items of \<open>expected\<close>; for
    the key of an item, \<open>expected[key]\<close> and \<open>expected.get(key)\<close> are the item's
    value \<open>ev\<close>.
  \<^verbatim>\<open>
    merged = deepcopy(current)
    for key in expected.keys():
        if (isinstance(expected.get(key), (dict, list)) and
                isinstance(current.get(key), (dict, list))):
            merged[key] = self.get_new_merged_data(merged[key], expected[key])
        else:
            if self._merge_type == 'present':
                if expected[key] is None:
                    continue
                merged[key] = expected[key]
            elif self._merge_type == 'absent':
                if merged.get(key) == expected[key]:
                    merged.pop(key)
            else:
                raise TypeError("Unexpected merge_type")
    return merged
  \<close>
\<close>

function get_new_merged_data :: "config \<Rightarrow> pyval \<Rightarrow> pyval \<Rightarrow> error + pyval"
  and get_new_merged_dict :: "config \<Rightarrow> pydict \<Rightarrow> pydict \<Rightarrow> error + pydict"
  and merged_dict_loop :: "config \<Rightarrow> pydict \<Rightarrow> pydict \<Rightarrow> pydict \<Rightarrow> error + pydict"
  and get_new_merged_list :: "config \<Rightarrow> pyval list \<Rightarrow> pyval list \<Rightarrow> error + pyval list"
  and get_new_merged_list_with_index_diff ::
        "config \<Rightarrow> pyval list \<Rightarrow> pyval list \<Rightarrow> error + pyval list"
where
  "get_new_merged_data cfg current expected =
     (if merge_type cfg = ''identic'' then Inr expected
      else if \<not> isinstance current (type_of expected) then
        (if merge_type cfg = ''present'' then Inr expected
         else if merge_type cfg = ''absent'' then Inr current
         else Inl TypeError)
      else (case (current, expected) of
              (PList c, PList e) \<Rightarrow> map_sum id PList (get_new_merged_list cfg c e)
            | (PDict c, PDict e) \<Rightarrow> map_sum id PDict (get_new_merged_dict cfg c e)
            | _ \<Rightarrow> Inl AttributeError))"
| "get_new_merged_dict cfg current expected =
     (if merge_type cfg = ''identic'' then Inr expected
      else merged_dict_loop cfg current current expected)"
| "merged_dict_loop cfg current merged [] = Inr merged"
| "merged_dict_loop cfg current merged ((key, ev) # rest) =
     (if is_container ev \<and> is_container (py_get current key) then
        (case dict_get merged key of
           None \<Rightarrow> Inl KeyError
         | Some mv \<Rightarrow>
             (case get_new_merged_data cfg mv ev of
                Inl err \<Rightarrow> Inl err
              | Inr r \<Rightarrow> merged_dict_loop cfg current (dict_set merged key r) rest))
      else if merge_type cfg = ''present'' then
        (if ev = PNone then merged_dict_loop cfg current merged rest
         else merged_dict_loop cfg current (dict_set merged key ev) rest)
      else if merge_type cfg = ''absent'' then
        (if py_eq (py_get merged key) ev then
           (case dict_pop merged key of
              Inl err \<Rightarrow> Inl err
            | Inr m \<Rightarrow> merged_dict_loop cfg current m rest)
         else merged_dict_loop cfg current merged rest)
      else Inl TypeError)"
| "get_new_merged_list cfg current expected =
     (if merge_type cfg = ''identic'' then Inr expected
      else if list_diff_type cfg = ''value'' then
        get_new_merged_list_with_value_diff cfg current expected
      else if list_diff_type cfg = ''index'' then
        get_new_merged_list_with_index_diff cfg current expected
      else Inl TypeError)"
| "get_new_merged_list_with_index_diff cfg current expected =
     map_sum id convert_dict_to_list
       (get_new_merged_dict cfg (convert_list_to_dict current)
          (convert_list_to_dict expected))"
  by pat_completeness auto
termination
  by (relation "measure (\<lambda>x. case x of
      Inl (Inl (cfg, c, e)) \<Rightarrow> 4 * weight e
    | Inl (Inr (cfg, c, e)) \<Rightarrow> 4 * weight_items e + 1
    | Inr (Inl (cfg, c, m, e)) \<Rightarrow> 4 * weight_items e
    | Inr (Inr (Inl (cfg, c, e))) \<Rightarrow> 4 * weight_list e + 3
    | Inr (Inr (Inr (cfg, c, e))) \<Rightarrow> 4 * weight_list e + 2)") auto

declare get_new_merged_data.simps [simp del]
declare get_new_merged_dict.simps [simp del]
declare merged_dict_loop.simps [simp del]
declare get_new_merged_list.simps [simp del]
declare get_new_merged_list_with_index_diff.simps [simp del]

lemmas merge_simps =
  get_new_merged_data.simps get_new_merged_dict.simps merged_dict_loop.simps
  get_new_merged_list.simps get_new_merged_list_with_index_diff.simps
  get_new_merged_list_with_value_diff_def

lemmas eval_simps =
  merge_simps isinstance_def py_get_def dict_get_def dict_pop_def py_in_def
  convert_list_to_dict_def convert_dict_to_list_def

subsection \<open>The merge with a bound on its depth\<close>

text \<open>
  The same five functions with a counter that bounds how many activations of
  the dispatcher \<open>get_new_merged_data\<close> may be nested: each activation takes one unit for
  everything it calls, and \<open>None\<close> is "the bound was reached". The other four functions
  pass the counter on.
\<close>

function get_new_merged_data_fuel ::
      "nat \<Rightarrow> config \<Rightarrow> pyval \<Rightarrow> pyval \<Rightarrow> (error + pyval) option"
  and get_new_merged_dict_fuel ::
      "nat \<Rightarrow> config \<Rightarrow> pydict \<Rightarrow> pydict \<Rightarrow> (error + pydict) option"
  and merged_dict_loop_fuel ::
      "nat \<Rightarrow> config \<Rightarrow> pydict \<Rightarrow> pydict \<Rightarrow> pydict \<Rightarrow> (error + pydict) option"
  and get_new_merged_list_fuel ::
      "nat \<Rightarrow> config \<Rightarrow> pyval list \<Rightarrow> pyval list \<Rightarrow> (error + pyval list) option"
  and get_new_merged_list_with_index_diff_fuel ::
      "nat \<Rightarrow> config \<Rightarrow> pyval list \<Rightarrow> pyval list \<Rightarrow> (error + pyval list) option"
where
  "get_new_merged_data_fuel 0 cfg current expected = None"
| "get_new_merged_data_fuel (Suc n) cfg current expected =
     (if merge_type cfg = ''identic'' then Some (Inr expected)
      else if \<not> isinstance current (type_of expected) then
        (if merge_type cfg = ''present'' then Some (Inr expected)
         else if merge_type cfg = ''absent'' then Some (Inr current)
         else Some (Inl TypeError))
      else (case (current, expected) of
              (PList c, PList e) \<Rightarrow>
                map_option (map_sum id PList) (get_new_merged_list_fuel n cfg c e)
            | (PDict c, PDict e) \<Rightarrow>
                map_option (map_sum id PDict) (get_new_merged_dict_fuel n cfg c e)
            | _ \<Rightarrow> Some (Inl AttributeError)))"
| "get_new_merged_dict_fuel n cfg current expected =
     (if merge_type cfg = ''identic'' then Some (Inr expected)
      else merged_dict_loop_fuel n cfg current current expected)"
| "merged_dict_loop_fuel n cfg current merged [] = Some (Inr merged)"
| "merged_dict_loop_fuel n cfg current merged ((key, ev) # rest) =
     (if is_container ev \<and> is_container (py_get current key) then
        (case dict_get merged key of
           None \<Rightarrow> Some (Inl KeyError)
         | Some mv \<Rightarrow>
             (case get_new_merged_data_fuel n cfg mv ev of
                None \<Rightarrow> None
              | Some (Inl err) \<Rightarrow> Some (Inl err)
              | Some (Inr r) \<Rightarrow>
                  merged_dict_loop_fuel n cfg current (dict_set merged key r) rest))
      else if merge_type cfg = ''present'' then
        (if ev = PNone then merged_dict_loop_fuel n cfg current merged rest
         else merged_dict_loop_fuel n cfg current (dict_set merged key ev) rest)
      else if merge_type cfg = ''absent'' then
        (if py_eq (py_get merged key) ev then
           (case dict_pop merged key of
              Inl err \<Rightarrow> Some (Inl err)
            | Inr m \<Rightarrow> merged_dict_loop_fuel n cfg current m rest)
         else merged_dict_loop_fuel n cfg current merged rest)
      else Some (Inl TypeError))"
| "get_new_merged_list_fuel n cfg current expected =
     (if merge_type cfg = ''identic'' then Some (Inr expected)
      else if list_diff_type cfg = ''value'' then
        Some (get_new_merged_list_with_value_diff cfg current expected)
      else if list_diff_type cfg = ''index'' then
        get_new_merged_list_with_index_diff_fuel n cfg current expected
      else Some (Inl TypeError))"
| "get_new_merged_list_with_index_diff_fuel n cfg current expected =
     map_option (map_sum id convert_dict_to_list)
       (get_new_merged_dict_fuel n cfg (convert_list_to_dict current)
          (convert_list_to_dict expected))"
  by pat_completeness auto
termination
  by (relation "inv_image (less_than <*lex*> less_than) (\<lambda>x. case x of
      Inl (Inl (n, cfg, c, e)) \<Rightarrow> (n, 0)
    | Inl (Inr (n, cfg, c, e)) \<Rightarrow> (n, length e + 2)
    | Inr (Inl (n, cfg, c, m, e)) \<Rightarrow> (n, length e + 1)
    | Inr (Inr (Inl (n, cfg, c, e))) \<Rightarrow> (n, length e + 4)
    | Inr (Inr (Inr (n, cfg, c, e))) \<Rightarrow> (n, length e + 3))")
     (auto simp: convert_list_to_dict_def)

declare get_new_merged_data_fuel.simps [simp del]
declare get_new_merged_dict_fuel.simps [simp del]
declare merged_dict_loop_fuel.simps [simp del]
declare get_new_merged_list_fuel.simps [simp del]
declare get_new_merged_list_with_index_diff_fuel.simps [simp del]

subsection \<open>The merge on a store of objects\<close>

text \<open>
  The functions above compute with values. Whether a call changes an object that its caller
  holds can only be said where objects have an identity, so the class is embedded a second
  time, over an explicit store. A \<open>heap\<close> is the list of the dictionaries and lists
  allocated so far; an address is an index into it, and \<open>HRef a\<close> is what a variable or
  a container holds for the object at address \<open>a\<close>. Atoms are immutable and are held
  directly. Creating an object appends it to the store; \<open>d[k] = v\<close> and \<open>d.pop(k)\<close>
  replace the object at the address of \<open>d\<close>, and every holder of that address sees the
  change.
\<close>

datatype hval = HNone | HBool bool | HInt int | HFloat real | HStr string | HRef nat

datatype hobj = HList "hval list" | HDict "(pykey \<times> hval) list"

type_synonym heap = "hobj list"

definition obj_at :: "heap \<Rightarrow> nat \<Rightarrow> hobj option" where
  "obj_at h a = (if a < length h then Some (h ! a) else None)"

text \<open>
  \<open>tree_of n h v\<close> is the value that \<open>v\<close> stands for in the store \<open>h\<close>, read down to
  \<open>n\<close> levels of containers (\<open>None\<close> when the structure is deeper, or is cyclic).
\<close>

function tree_of :: "nat \<Rightarrow> heap \<Rightarrow> hval \<Rightarrow> pyval option"
  and trees_of :: "nat \<Rightarrow> heap \<Rightarrow> hval list \<Rightarrow> pyval list option"
  and items_of :: "nat \<Rightarrow> heap \<Rightarrow> (pykey \<times> hval) list \<Rightarrow> pydict option"
where
  "tree_of n h HNone = Some PNone"
| "tree_of n h (HBool b) = Some (PBool b)"
| "tree_of n h (HInt i) = Some (PInt i)"
| "tree_of n h (HFloat x) = Some (PFloat x)"
| "tree_of n h (HStr s) = Some (PStr s)"
| "tree_of 0 h (HRef a) = None"
| "tree_of (Suc n) h (HRef a) =
     (case obj_at h a of
        None \<Rightarrow> None
      | Some (HList xs) \<Rightarrow> map_option PList (trees_of n h xs)
      | Some (HDict kvs) \<Rightarrow> map_option PDict (items_of n h kvs))"
| "trees_of n h [] = Some []"
| "trees_of n h (x # xs) =
     (case tree_of n h x of
        None \<Rightarrow> None
      | Some t \<Rightarrow> map_option ((#) t) (trees_of n h xs))"
| "items_of n h [] = Some []"
| "items_of n h ((k, v) # kvs) =
     (case tree_of n h v of
        None \<Rightarrow> None
      | Some t \<Rightarrow> map_option ((#) (k, t)) (items_of n h kvs))"
  by pat_completeness auto
termination
  by (relation "inv_image (less_than <*lex*> less_than) (\<lambda>x. case x of
      Inl (n, h, v) \<Rightarrow> (n, 0)
    | Inr (Inl (n, h, xs)) \<Rightarrow> (n, Suc (length xs))
    | Inr (Inr (n, h, kvs)) \<Rightarrow> (n, Suc (length kvs)))") auto

text \<open>
  \<open>alloc_tree h t\<close> builds the value \<open>t\<close> out of new objects, the parts of a container
  before the container. \<open>deepcopy\<close> reads its argument and builds it anew; like the
  function of the library it recurses over its argument, so it is given the room \<open>n\<close> that
  the recursion limit leaves. (The library's \<open>deepcopy\<close> keeps the sharing among the parts
  of its argument and can copy a cyclic structure; the copy built here shares nothing among
  its parts, and a cyclic argument uses up the room.)
\<close>

fun alloc_tree :: "heap \<Rightarrow> pyval \<Rightarrow> hval \<times> heap"
  and alloc_list :: "heap \<Rightarrow> pyval list \<Rightarrow> hval list \<times> heap"
  and alloc_items :: "heap \<Rightarrow> pydict \<Rightarrow> (pykey \<times> hval) list \<times> heap"
where
  "alloc_tree h PNone = (HNone, h)"
| "alloc_tree h (PBool b) = (HBool b, h)"
| "alloc_tree h (PInt i) = (HInt i, h)"
| "alloc_tree h (PFloat x) = (HFloat x, h)"
| "alloc_tree h (PStr s) = (HStr s, h)"
| "alloc_tree h (PList ts) =
     (case alloc_list h ts of (vs, h') \<Rightarrow> (HRef (length h'), h' @ [HList vs]))"
| "alloc_tree h (PDict d) =
     (case alloc_items h d of (kvs, h') \<Rightarrow> (HRef (length h'), h' @ [HDict kvs]))"
| "alloc_list h [] = ([], h)"
| "alloc_list h (t # ts) =
     (case alloc_tree h t of (v, h1) \<Rightarrow>
        (case alloc_list h1 ts of (vs, h2) \<Rightarrow> (v # vs, h2)))"
| "alloc_items h [] = ([], h)"
| "alloc_items h ((k, t) # d) =
     (case alloc_tree h t of (v, h1) \<Rightarrow>
        (case alloc_items h1 d of (kvs, h2) \<Rightarrow> ((k, v) # kvs, h2)))"

definition deepcopy_h :: "nat \<Rightarrow> heap \<Rightarrow> hval \<Rightarrow> (error + hval) \<times> heap" where
  "deepcopy_h n h v =
     (case tree_of n h v of
        None \<Rightarrow> (Inl RecursionError, h)
      | Some t \<Rightarrow> (case alloc_tree h t of (v', h') \<Rightarrow> (Inr v', h')))"

text \<open>\<open>type(x)\<close>, \<open>isinstance(x, t)\<close> and \<open>isinstance(x, (dict, list))\<close> in a store.\<close>

fun type_of_h :: "heap \<Rightarrow> hval \<Rightarrow> pytype" where
  "type_of_h h HNone = TNone"
| "type_of_h h (HBool b) = TBool"
| "type_of_h h (HInt i) = TInt"
| "type_of_h h (HFloat x) = TFloat"
| "type_of_h h (HStr s) = TStr"
| "type_of_h h (HRef a) =
     (case obj_at h a of Some (HList xs) \<Rightarrow> TList | Some (HDict kvs) \<Rightarrow> TDict | None \<Rightarrow> TNone)"

definition isinstance_h :: "heap \<Rightarrow> hval \<Rightarrow> pytype \<Rightarrow> bool" where
  "isinstance_h h v t = (type_of_h h v = t \<or> (type_of_h h v = TBool \<and> t = TInt))"

definition is_container_h :: "heap \<Rightarrow> hval \<Rightarrow> bool" where
  "is_container_h h v = (type_of_h h v = TList \<or> type_of_h h v = TDict)"

definition dict_at :: "heap \<Rightarrow> nat \<Rightarrow> (pykey \<times> hval) list option" where
  "dict_at h a = (case obj_at h a of Some (HDict kvs) \<Rightarrow> Some kvs | _ \<Rightarrow> None)"

definition list_at :: "heap \<Rightarrow> nat \<Rightarrow> hval list option" where
  "list_at h a = (case obj_at h a of Some (HList xs) \<Rightarrow> Some xs | _ \<Rightarrow> None)"

text \<open>
  \<open>d.get(key)\<close>, \<open>d[key]\<close>, \<open>d[key] = v\<close> and \<open>d.pop(key)\<close> for the object at an
  address. An object that is not a dictionary has no \<open>get\<close> and no \<open>pop\<close>
  (\<open>AttributeError\<close>). \<open>a == b\<close> compares the two values read off the store.
\<close>

definition get_h :: "heap \<Rightarrow> nat \<Rightarrow> pykey \<Rightarrow> error + hval" where
  "get_h h a key =
     (case dict_at h a of
        None \<Rightarrow> Inl AttributeError
      | Some kvs \<Rightarrow> Inr (case dict_get kvs key of None \<Rightarrow> HNone | Some v \<Rightarrow> v))"

definition getitem_h :: "heap \<Rightarrow> nat \<Rightarrow> pykey \<Rightarrow> error + hval" where
  "getitem_h h a key =
     (case dict_at h a of
        None \<Rightarrow> Inl TypeError
      | Some kvs \<Rightarrow> (case dict_get kvs key of None \<Rightarrow> Inl KeyError | Some v \<Rightarrow> Inr v))"

definition setitem_h :: "heap \<Rightarrow> nat \<Rightarrow> pykey \<Rightarrow> hval \<Rightarrow> error + heap" where
  "setitem_h h a key v =
     (case dict_at h a of
        None \<Rightarrow> Inl TypeError
      | Some kvs \<Rightarrow> Inr (h[a := HDict (dict_set kvs key v)]))"

definition pop_h :: "heap \<Rightarrow> nat \<Rightarrow> pykey \<Rightarrow> error + heap" where
  "pop_h h a key =
     (case dict_at h a of
        None \<Rightarrow> Inl AttributeError
      | Some kvs \<Rightarrow>
          (case dict_pop kvs key of
             Inl err \<Rightarrow> Inl err
           | Inr kvs' \<Rightarrow> Inr (h[a := HDict kvs'])))"

definition eq_h :: "nat \<Rightarrow> heap \<Rightarrow> hval \<Rightarrow> hval \<Rightarrow> error + bool" where
  "eq_h n h a b =
     (case tree_of n h a of
        None \<Rightarrow> Inl RecursionError
      | Some x \<Rightarrow>
          (case tree_of n h b of
             None \<Rightarrow> Inl RecursionError
           | Some y \<Rightarrow> Inr (py_eq x y)))"

text \<open>
  One pass through the body of the loop of \<open>get_new_merged_dict\<close>, up to the point where
  it changes \<open>merged\<close> or calls the dispatcher: \<open>loop_body_reads\<close> evaluates the tests
  of the body in the order of the source and answers what the pass goes on to do:
  \<open>Recurse mv ev\<close> for \<open>merged[key] = self.get_new_merged_data(merged[key], expected[key])\<close>
  with the two arguments already evaluated, \<open>Store ev\<close> for \<open>merged[key] = expected[key]\<close>,
  \<open>Pop\<close> for \<open>merged.pop(key)\<close>, \<open>Skip\<close> when the pass changes nothing.
  \<^verbatim>\<open>
    if (isinstance(expected.get(key), (dict, list)) and
            isinstance(current.get(key), (dict, list))):
        merged[key] = self.get_new_merged_data(merged[key], expected[key])
    else:
        if self._merge_type == 'present':
            if expected[key] is None:
                continue
            merged[key] = expected[key]
        elif self._merge_type == 'absent':
            if merged.get(key) == expected[key]:
                merged.pop(key)
        else:
            raise TypeError("Unexpected merge_type")
  \<close>
\<close>

datatype action = Recurse hval hval | Store hval | Skip | Pop

definition loop_body_reads ::
  "nat \<Rightarrow> config \<Rightarrow> heap \<Rightarrow> nat \<Rightarrow> nat \<Rightarrow> nat \<Rightarrow> pykey \<Rightarrow> error + action" where
  "loop_body_reads n cfg h current expected merged key =
     (case get_h h expected key of
        Inl err \<Rightarrow> Inl err
      | Inr eg \<Rightarrow>
          (case (if is_container_h h eg
                 then map_sum id (is_container_h h) (get_h h current key)
                 else Inr False) of
             Inl err \<Rightarrow> Inl err
           | Inr True \<Rightarrow>
               (case getitem_h h merged key of
                  Inl err \<Rightarrow> Inl err
                | Inr mv \<Rightarrow>
                    (case getitem_h h expected key of
                       Inl err \<Rightarrow> Inl err
                     | Inr ev \<Rightarrow> Inr (Recurse mv ev)))
           | Inr False \<Rightarrow>
               (if merge_type cfg = ''present'' then
                  (case getitem_h h expected key of
                     Inl err \<Rightarrow> Inl err
                   | Inr ev \<Rightarrow> Inr (if ev = HNone then Skip else Store ev))
                else if merge_type cfg = ''absent'' then
                  (case get_h h merged key of
                     Inl err \<Rightarrow> Inl err
                   | Inr mg \<Rightarrow>
                       (case getitem_h h expected key of
                          Inl err \<Rightarrow> Inl err
                        | Inr ev \<Rightarrow>
                            (case eq_h n h mg ev of
                               Inl err \<Rightarrow> Inl err
                             | Inr b \<Rightarrow> Inr (if b then Pop else Skip))))
                else Inl TypeError)))"

text \<open>
  \<open>_get_new_merged_list_with_value_diff\<close>: the result is a new list that holds the
  elements of the operands themselves (\<open>current + [...]\<close> and the comprehensions copy no
  element); \<open>elem not in xs\<close> compares values.
\<close>

definition get_new_merged_list_with_value_diff_h ::
  "nat \<Rightarrow> config \<Rightarrow> heap \<Rightarrow> nat \<Rightarrow> nat \<Rightarrow> (error + hval) \<times> heap" where
  "get_new_merged_list_with_value_diff_h n cfg h current expected =
     (case (list_at h current, list_at h expected) of
        (Some cs, Some es) \<Rightarrow>
          (if merge_type cfg \<noteq> ''present'' \<and> merge_type cfg \<noteq> ''absent''
           then (Inl TypeError, h)
           else (case (trees_of n h cs, trees_of n h es) of
                   (Some tcs, Some tes) \<Rightarrow>
                     (Inr (HRef (length h)),
                      h @ [HList
                        (if merge_type cfg = ''present''
                         then cs @ map fst (filter (\<lambda>(v, t). \<not> py_in t tcs) (zip es tes))
                         else map fst (filter (\<lambda>(v, t). \<not> py_in t tes) (zip cs tcs)))])
                 | _ \<Rightarrow> (Inl RecursionError, h)))
      | _ \<Rightarrow> (Inl TypeError, h))"

text \<open>
  The five functions of the merge. Each takes the store and returns its result, or the
  exception, with the store it leaves. \<open>n\<close> is the room that the interpreter's recursion
  limit leaves, counted in nested activations of the dispatcher \<open>get_new_merged_data\<close>:
  an activation with no room left raises \<open>RecursionError\<close>, and the other four functions
  pass the counter on.

  \<^item> \<open>get_new_merged_data\<close> takes two values; once \<open>isinstance(current, type(expected))\<close>
    holds, two references go to the list or the dictionary merger, and two atoms go to the
    dictionary merger, where \<open>expected.keys()\<close> raises \<open>AttributeError\<close>.
  \<^item> \<open>get_new_merged_dict\<close> takes the addresses of its operands. \<open>merged\<close> is the address
    of the copy of \<open>current\<close>; the loop runs over the keys that \<open>expected\<close> has when the
    loop starts, and the method returns the reference \<open>merged\<close>.
  \<^item> \<open>_get_new_merged_list_with_index_diff\<close> creates the two positional dictionaries
    (\<open>_convert_list_to_dict\<close>), merges them, and creates the list of the values of the
    result (\<open>_convert_dict_to_list\<close>).
\<close>

function get_new_merged_data_h ::
      "nat \<Rightarrow> config \<Rightarrow> heap \<Rightarrow> hval \<Rightarrow> hval \<Rightarrow> (error + hval) \<times> heap"
  and get_new_merged_dict_h ::
      "nat \<Rightarrow> config \<Rightarrow> heap \<Rightarrow> nat \<Rightarrow> nat \<Rightarrow> (error + hval) \<times> heap"
  and merged_dict_loop_h ::
      "nat \<Rightarrow> config \<Rightarrow> heap \<Rightarrow> nat \<Rightarrow> nat \<Rightarrow> nat \<Rightarrow> pykey list \<Rightarrow> (error + unit) \<times> heap"
  and get_new_merged_list_h ::
      "nat \<Rightarrow> config \<Rightarrow> heap \<Rightarrow> nat \<Rightarrow> nat \<Rightarrow> (error + hval) \<times> heap"
  and get_new_merged_list_with_index_diff_h ::
      "nat \<Rightarrow> config \<Rightarrow> heap \<Rightarrow> nat \<Rightarrow> nat \<Rightarrow> (error + hval) \<times> heap"
where
  "get_new_merged_data_h 0 cfg h current expected = (Inl RecursionError, h)"
| "get_new_merged_data_h (Suc n) cfg h current expected =
     (if merge_type cfg = ''identic'' then deepcopy_h n h expected
      else if \<not> isinstance_h h current (type_of_h h expected) then
        (if merge_type cfg = ''present'' then deepcopy_h n h expected
         else if merge_type cfg = ''absent'' then deepcopy_h n h current
         else (Inl TypeError, h))
      else (case (current, expected) of
              (HRef c, HRef e) \<Rightarrow>
                (if type_of_h h current = TList
                 then get_new_merged_list_h n cfg h c e
                 else get_new_merged_dict_h n cfg h c e)
            | _ \<Rightarrow> (Inl AttributeError, h)))"
| "get_new_merged_dict_h n cfg h current expected =
     (if merge_type cfg = ''identic'' then deepcopy_h n h (HRef expected)
      else (case deepcopy_h n h (HRef current) of
              (Inl err, h1) \<Rightarrow> (Inl err, h1)
            | (Inr (HRef merged), h1) \<Rightarrow>
                (case dict_at h1 expected of
                   None \<Rightarrow> (Inl AttributeError, h1)
                 | Some eitems \<Rightarrow>
                     (case merged_dict_loop_h n cfg h1 current expected merged (map fst eitems) of
                        (Inl err, h2) \<Rightarrow> (Inl err, h2)
                      | (Inr u, h2) \<Rightarrow> (Inr (HRef merged), h2)))
            | (Inr v, h1) \<Rightarrow> (Inl AttributeError, h1)))"
| "merged_dict_loop_h n cfg h current expected merged [] = (Inr (), h)"
| "merged_dict_loop_h n cfg h current expected merged (key # keys) =
     (case loop_body_reads n cfg h current expected merged key of
        Inl err \<Rightarrow> (Inl err, h)
      | Inr (Recurse mv ev) \<Rightarrow>
          (case get_new_merged_data_h n cfg h mv ev of
             (Inl err, h1) \<Rightarrow> (Inl err, h1)
           | (Inr r, h1) \<Rightarrow>
               (case setitem_h h1 merged key r of
                  Inl err \<Rightarrow> (Inl err, h1)
                | Inr h2 \<Rightarrow> merged_dict_loop_h n cfg h2 current expected merged keys))
      | Inr (Store ev) \<Rightarrow>
          (case setitem_h h merged key ev of
             Inl err \<Rightarrow> (Inl err, h)
           | Inr h1 \<Rightarrow> merged_dict_loop_h n cfg h1 current expected merged keys)
      | Inr Skip \<Rightarrow> merged_dict_loop_h n cfg h current expected merged keys
      | Inr Pop \<Rightarrow>
          (case pop_h h merged key of
             Inl err \<Rightarrow> (Inl err, h)
           | Inr h1 \<Rightarrow> merged_dict_loop_h n cfg h1 current expected merged keys))"
| "get_new_merged_list_h n cfg h current expected =
     (if merge_type cfg = ''identic'' then deepcopy_h n h (HRef expected)
      else if list_diff_type cfg = ''value'' then
        get_new_merged_list_with_value_diff_h n cfg h current expected
      else if list_diff_type cfg = ''index'' then
        get_new_merged_list_with_index_diff_h n cfg h current expected
      else (Inl TypeError, h))"
| "get_new_merged_list_with_index_diff_h n cfg h current expected =
     (case (list_at h current, list_at h expected) of
        (Some cs, Some es) \<Rightarrow>
          (case get_new_merged_dict_h n cfg
                  (h @ [HDict (convert_list_to_dict cs), HDict (convert_list_to_dict es)])
                  (length h) (Suc (length h)) of
             (Inl err, h1) \<Rightarrow> (Inl err, h1)
           | (Inr (HRef md), h1) \<Rightarrow>
               (case dict_at h1 md of
                  Some kvs \<Rightarrow> (Inr (HRef (length h1)), h1 @ [HList (convert_dict_to_list kvs)])
                | None \<Rightarrow> (Inl AttributeError, h1))
           | (Inr v, h1) \<Rightarrow> (Inl AttributeError, h1))
      | _ \<Rightarrow> (Inl TypeError, h))"
  by pat_completeness auto
termination
  by (relation "inv_image (less_than <*lex*> less_than <*lex*> less_than) (\<lambda>x. case x of
      Inl (Inl (n, cfg, h, c, e)) \<Rightarrow> (n, 0, 0)
    | Inl (Inr (n, cfg, h, c, e)) \<Rightarrow> (n, 2, 0)
    | Inr (Inl (n, cfg, h, c, e, m, ks)) \<Rightarrow> (n, 1, length ks)
    | Inr (Inr (Inl (n, cfg, h, c, e))) \<Rightarrow> (n, 4, 0)
    | Inr (Inr (Inr (n, cfg, h, c, e))) \<Rightarrow> (n, 3, 0))") auto

declare get_new_merged_data_h.simps [simp del]
declare get_new_merged_dict_h.simps [simp del]
declare merged_dict_loop_h.simps [simp del]
declare get_new_merged_list_h.simps [simp del]
declare get_new_merged_list_with_index_diff_h.simps [simp del]

subsection \<open>Vocabulary of the properties\<close>

text \<open>
  The specification sorts values into four shapes. Two values of different shapes have
  different Python types, neither a subclass of the other.
\<close>

datatype shape = Null | Scalar | Sequence | Mapping

fun shape_of :: "pyval \<Rightarrow> shape" where
  "shape_of PNone = Null"
| "shape_of (PBool b) = Scalar"
| "shape_of (PInt i) = Scalar"
| "shape_of (PFloat x) = Scalar"
| "shape_of (PStr s) = Scalar"
| "shape_of (PList xs) = Sequence"
| "shape_of (PDict d) = Mapping"

text \<open>
  The recursion case of the mapping merger in the specification's words: both values are
  mappings, or both are sequences. (The code recurses whenever both are containers; for a
  mapping against a sequence the dispatcher then answers as the flat case would.)
\<close>

definition same_composite_kind :: "pyval \<Rightarrow> pyval \<Rightarrow> bool" where
  "same_composite_kind a b = (is_container a \<and> is_container b \<and> type_of a = type_of b)"

text \<open>
  The representation invariant of Python dictionaries, at every depth: no key twice.
\<close>

fun wf_val :: "pyval \<Rightarrow> bool"
  and wf_list :: "pyval list \<Rightarrow> bool"
  and wf_items :: "pydict \<Rightarrow> bool"
where
  "wf_val (PList xs) = wf_list xs"
| "wf_val (PDict d) = (distinct (map fst d) \<and> wf_items d)"
| "wf_val v = True"
| "wf_list [] = True"
| "wf_list (x # xs) = (wf_val x \<and> wf_list xs)"
| "wf_items [] = True"
| "wf_items ((k, v) # d) = (wf_val v \<and> wf_items d)"

text \<open>
  The condition under which \<open>absent\<close> meets no \<open>None\<close> of \<open>expected\<close> at a key that
  \<open>current\<close> lacks. It follows the merge: for an item of \<open>expected\<close> in the recursion
  case it looks into the two values (two dictionaries; two lists when lists are compared
  by index, as their positional dictionaries), and for any other item whose value is
  \<open>None\<close> it asks that \<open>current\<close> holds the key.
\<close>

function null_covered :: "config \<Rightarrow> pyval \<Rightarrow> pyval \<Rightarrow> bool"
  and null_covered_items :: "config \<Rightarrow> pydict \<Rightarrow> pydict \<Rightarrow> bool"
where
  "null_covered cfg current expected =
     (case (current, expected) of
        (PDict c, PDict e) \<Rightarrow> null_covered_items cfg c e
      | (PList c, PList e) \<Rightarrow>
          (list_diff_type cfg = ''index'' \<longrightarrow>
             null_covered_items cfg (convert_list_to_dict c) (convert_list_to_dict e))
      | _ \<Rightarrow> True)"
| "null_covered_items cfg c [] = True"
| "null_covered_items cfg c ((key, ev) # rest) =
     ((if is_container ev \<and> is_container (py_get c key)
       then null_covered cfg (py_get c key) ev
       else ev = PNone \<longrightarrow> dict_get c key \<noteq> None)
      \<and> null_covered_items cfg c rest)"
  by pat_completeness auto
termination
  by (relation "measure (\<lambda>x. case x of
      Inl (cfg, c, e) \<Rightarrow> 2 * weight e + 1
    | Inr (cfg, c, e) \<Rightarrow> 2 * weight_items e)") auto

declare null_covered.simps [simp del]

text \<open>
  A call completes when it returns, or raises the \<open>TypeError\<close> of
  \<open>get_new_merged_list\<close> for a \<open>list_diff_type\<close> outside \<open>value\<close> and
  \<open>index\<close>.
\<close>

definition completes :: "config \<Rightarrow> error + 'a \<Rightarrow> bool" where
  "completes cfg res =
     (case res of
        Inr r \<Rightarrow> True
      | Inl err \<Rightarrow> err = TypeError \<and> list_diff_type cfg \<notin> set [''value'', ''index''])"


text \<open>
  The way back from a positional mapping in the specification's words: the values in
  ascending order of their keys. The keys of a positional mapping are integers;
  \<open>positional len n d\<close> says so of \<open>d\<close>, and that its keys stand in ascending order,
  stay below \<open>max len n\<close> and include every position from \<open>n\<close> up to \<open>len\<close>: what
  holds of \<open>merged\<close> when the positions below \<open>n\<close> of \<open>expected\<close> have been visited and
  \<open>current\<close> has \<open>len\<close> elements.
\<close>

definition position :: "pykey \<Rightarrow> int" where
  "position k = (case k of KInt i \<Rightarrow> i | KStr s \<Rightarrow> 0)"

definition values_by_ascending_key :: "pydict \<Rightarrow> pyval list" where
  "values_by_ascending_key d = map snd (sort_key (\<lambda>kv. position (fst kv)) d)"

definition positional :: "nat \<Rightarrow> nat \<Rightarrow> pydict \<Rightarrow> bool" where
  "positional len n d \<longleftrightarrow>
     sorted_wrt (<) (map position (map fst d))
   \<and> (\<forall>k \<in> fst ` set d. \<exists>i. k = KInt (int i) \<and> i < max len n)
   \<and> (\<forall>i. n \<le> i \<and> i < len \<longrightarrow> KInt (int i) \<in> fst ` set d)"

text \<open>The nesting depth of a value: an atom has depth 0, a container one more than its parts.\<close>

fun depth :: "pyval \<Rightarrow> nat"
  and depth_list :: "pyval list \<Rightarrow> nat"
  and depth_items :: "pydict \<Rightarrow> nat"
where
  "depth (PList xs) = Suc (depth_list xs)"
| "depth (PDict d) = Suc (depth_items d)"
| "depth v = 0"
| "depth_list [] = 0"
| "depth_list (x # xs) = max (depth x) (depth_list xs)"
| "depth_items [] = 0"
| "depth_items ((k, v) # d) = max (depth v) (depth_items d)"

text \<open>
  \<open>kept h h'\<close>: the store \<open>h'\<close> holds every object of \<open>h\<close> unchanged at its address (and
  possibly new objects after them). \<open>kept_but m h h'\<close> allows the object at \<open>m\<close> to differ.
\<close>

definition kept :: "heap \<Rightarrow> heap \<Rightarrow> bool" where
  "kept h h' \<longleftrightarrow> length h \<le> length h' \<and> (\<forall>a < length h. h' ! a = h ! a)"

definition kept_but :: "nat \<Rightarrow> heap \<Rightarrow> heap \<Rightarrow> bool" where
  "kept_but m h h' \<longleftrightarrow> length h \<le> length h' \<and> (\<forall>a < length h. a \<noteq> m \<longrightarrow> h' ! a = h ! a)"

text \<open>
  \<open>reads X h v t\<close>: in the store \<open>h\<close> the held value \<open>v\<close> stands for the value \<open>t\<close>, and
  no object of it lies at an address of \<open>X\<close>. With \<open>X\<close> empty this says that \<open>v\<close> is a
  finite structure of \<open>h\<close> whose value is \<open>t\<close>; its parts may be shared.
\<close>

fun reads :: "nat set \<Rightarrow> heap \<Rightarrow> hval \<Rightarrow> pyval \<Rightarrow> bool"
  and reads_list :: "nat set \<Rightarrow> heap \<Rightarrow> hval list \<Rightarrow> pyval list \<Rightarrow> bool"
  and reads_items :: "nat set \<Rightarrow> heap \<Rightarrow> (pykey \<times> hval) list \<Rightarrow> pydict \<Rightarrow> bool"
where
  "reads X h v PNone = (v = HNone)"
| "reads X h v (PBool b) = (v = HBool b)"
| "reads X h v (PInt i) = (v = HInt i)"
| "reads X h v (PFloat x) = (v = HFloat x)"
| "reads X h v (PStr s) = (v = HStr s)"
| "reads X h v (PList ts) =
     (case v of
        HRef a \<Rightarrow> a \<notin> X \<and>
          (case obj_at h a of Some (HList xs) \<Rightarrow> reads_list X h xs ts | _ \<Rightarrow> False)
      | _ \<Rightarrow> False)"
| "reads X h v (PDict d) =
     (case v of
        HRef a \<Rightarrow> a \<notin> X \<and>
          (case obj_at h a of Some (HDict kvs) \<Rightarrow> reads_items X h kvs d | _ \<Rightarrow> False)
      | _ \<Rightarrow> False)"
| "reads_list X h vs [] = (vs = [])"
| "reads_list X h vs (t # ts) =
     (case vs of [] \<Rightarrow> False | x # xs \<Rightarrow> reads X h x t \<and> reads_list X h xs ts)"
| "reads_items X h kvs [] = (kvs = [])"
| "reads_items X h kvs ((k, t) # d) =
     (case kvs of
        [] \<Rightarrow> False
      | (k', v) # kvs' \<Rightarrow> k' = k \<and> reads X h v t \<and> reads_items X h kvs' d)"

text \<open>
  \<open>sim X r p\<close>: the outcome \<open>r\<close> of a call on the store agrees with the outcome \<open>p\<close> of the
  call on values: the same exception, or a result that stands for the result \<open>p\<close> in the
  store that the call leaves.
\<close>

definition sim :: "nat set \<Rightarrow> (error + hval) \<times> heap \<Rightarrow> error + pyval \<Rightarrow> bool" where
  "sim X r p =
     (case (p, fst r) of
        (Inl err, Inl err') \<Rightarrow> err' = err
      | (Inr t, Inr v) \<Rightarrow> reads X (snd r) v t
      | _ \<Rightarrow> False)"


section \<open>Properties\<close>

subsection \<open>Python's equality\<close>

text \<open>
  On values that hold no key twice \<open>py_eq\<close> is reflexive and symmetric. So the test
  \<open>x is e or x == e\<close> that \<open>in\<close> makes on each item is the test \<open>x == e\<close>, and
  the order of the two operands of \<open>==\<close> does not matter.
\<close>

lemma py_eq_at_iff: "py_eq_at k v b \<longleftrightarrow> (\<exists>w. dict_get b k = Some w \<and> py_eq v w)"
  by (induction b) (auto simp: dict_get_def)

lemma py_eq_items_iff: "py_eq_items a b \<longleftrightarrow> (\<forall>(k, v) \<in> set a. py_eq_at k v b)"
  by (induction a) auto

lemma py_eq_list_iff: "py_eq_list xs ys \<longleftrightarrow> list_all2 py_eq xs ys"
  by (induction xs ys rule: list_induct2') simp_all

lemma wf_list_iff: "wf_list xs \<longleftrightarrow> (\<forall>x \<in> set xs. wf_val x)"
  by (induction xs) simp_all

lemma wf_items_iff: "wf_items d \<longleftrightarrow> (\<forall>(k, v) \<in> set d. wf_val v)"
  by (induction d) auto

lemma dict_get_distinct: "distinct (map fst d) \<Longrightarrow> (k, v) \<in> set d \<Longrightarrow> dict_get d k = Some v"
  by (simp add: dict_get_def)

lemma dict_get_SomeD: "dict_get d k = Some v \<Longrightarrow> (k, v) \<in> set d"
  by (simp add: dict_get_def map_of_SomeD)

lemma py_eq_refl: "wf_val v \<Longrightarrow> py_eq v v"
proof (induction v)
  case (PList xs)
  then have "\<forall>x \<in> set xs. py_eq x x" by (simp add: wf_list_iff)
  then show ?case by (simp add: py_eq_list_iff list_all2_same)
next
  case (PDict d)
  from PDict.prems have dist: "distinct (map fst d)" and wf: "\<forall>(k, v) \<in> set d. wf_val v"
    by (simp_all add: wf_items_iff)
  have "py_eq_at k v d" if "(k, v) \<in> set d" for k v
  proof -
    from wf that have "wf_val v" by auto
    with PDict.IH that have "py_eq v v" by (metis snd_conv snds.intros)
    with dict_get_distinct [OF dist that] show ?thesis by (simp add: py_eq_at_iff)
  qed
  then show ?case by (auto simp: py_eq_items_iff)
qed simp_all

lemma keys_eq_of_subset:
  assumes "distinct (map fst a)" "distinct (map fst b)" "length a = length b"
    and "fst ` set a \<subseteq> fst ` set b"
  shows "fst ` set a = fst ` set b"
proof -
  have "card (fst ` set a) = length a" "card (fst ` set b) = length b"
    using assms(1,2) distinct_card [of "map fst a"] distinct_card [of "map fst b"] by simp_all
  with assms(3,4) show ?thesis
    by (simp add: card_subset_eq)
qed

lemma py_eq_sym: "wf_val a \<Longrightarrow> wf_val b \<Longrightarrow> py_eq a b \<Longrightarrow> py_eq b a"
proof (induction a arbitrary: b)
  case PNone
  then show ?case by (cases b) simp_all
next
  case (PBool x)
  then show ?case by (cases b) auto
next
  case (PInt x)
  then show ?case by (cases b) auto
next
  case (PFloat x)
  then show ?case by (cases b) auto
next
  case (PStr x)
  then show ?case by (cases b) simp_all
next
  case (PList xs)
  from PList.prems(3) obtain ys where b: "b = PList ys" by (cases b) simp_all
  with PList.prems have all2: "list_all2 py_eq xs ys"
    and wfx: "\<forall>x \<in> set xs. wf_val x" and wfy: "\<forall>y \<in> set ys. wf_val y"
    by (simp_all add: py_eq_list_iff wf_list_iff)
  have "list_all2 py_eq ys xs"
    unfolding list_all2_conv_all_nth
  proof (intro conjI allI impI)
    from all2 show "length ys = length xs" by (simp add: list_all2_lengthD)
  next
    fix i assume i: "i < length ys"
    with all2 have lt: "i < length xs" and eq: "py_eq (xs ! i) (ys ! i)"
      by (simp_all add: list_all2_conv_all_nth)
    from lt have "xs ! i \<in> set xs" by simp
    moreover from this wfx have "wf_val (xs ! i)" by blast
    moreover from i wfy have "wf_val (ys ! i)" by simp
    ultimately show "py_eq (ys ! i) (xs ! i)" using PList.IH eq by blast
  qed
  with b show ?case by (simp add: py_eq_list_iff)
next
  case (PDict d)
  from PDict.prems(3) obtain e where b: "b = PDict e" by (cases b) simp_all
  with PDict.prems have len: "length d = length e"
    and sub: "\<forall>(k, v) \<in> set d. \<exists>w. dict_get e k = Some w \<and> py_eq v w"
    and dd: "distinct (map fst d)" and de: "distinct (map fst e)"
    and wfd: "\<forall>(k, v) \<in> set d. wf_val v" and wfe: "\<forall>(k, v) \<in> set e. wf_val v"
    by (simp_all add: py_eq_items_iff py_eq_at_iff wf_items_iff)
  have "fst ` set d \<subseteq> fst ` set e"
  proof
    fix k assume "k \<in> fst ` set d"
    then obtain v where "(k, v) \<in> set d" by auto
    with sub obtain w where "dict_get e k = Some w" by blast
    then have "(k, w) \<in> set e" by (rule dict_get_SomeD)
    then show "k \<in> fst ` set e" by (rule rev_image_eqI) simp
  qed
  then have keys: "fst ` set d = fst ` set e"
    using dd de len by (intro keys_eq_of_subset)
  have "\<exists>v. dict_get d k = Some v \<and> py_eq w v" if kw: "(k, w) \<in> set e" for k w
  proof -
    from kw have "k \<in> fst ` set e" by (rule rev_image_eqI) simp
    with keys have "k \<in> fst ` set d" by simp
    then obtain v where kv: "(k, v) \<in> set d" by auto
    with sub obtain w' where w': "dict_get e k = Some w'" and eq: "py_eq v w'" by blast
    from dict_get_distinct [OF de kw] w' have "w' = w" by simp
    moreover from wfd kv have "wf_val v" by auto
    moreover from wfe kw have "wf_val w" by auto
    moreover from kv have "v \<in> snd ` set d" by (rule rev_image_eqI) simp
    ultimately have "py_eq w v" using PDict.IH [of "(k, v)" v w] kv eq by simp
    with dict_get_distinct [OF dd kv] show ?thesis by simp
  qed
  with b len show ?case
    by (auto simp: py_eq_items_iff py_eq_at_iff)
qed

subsection \<open>Configuration\<close>

text \<open>What the setters and the constructor reject, and what the constructor accepts.\<close>

lemma setters_reject:
  "v \<notin> {''identic'', ''present'', ''absent''} \<Longrightarrow> merge_type_setter v self = Inl ValueError"
  "v \<notin> {''identic'', ''present'', ''absent''} \<Longrightarrow> init v ldt = Inl ValueError"
  "w \<notin> {''value'', ''index''} \<Longrightarrow> list_diff_type_setter w self = Inl ValueError"
  by (simp_all add: init_def merge_type_setter_def list_diff_type_setter_def)

lemma init_Inr:
  "init mt ldt = Inr cfg \<longleftrightarrow>
     mt \<in> {''identic'', ''present'', ''absent''} \<and> cfg = \<lparr>merge_type = mt, list_diff_type = ldt\<rparr>"
  by (auto simp: init_def merge_type_setter_def blank_def)

text \<open>
  Claim C5 (fail-fast configuration) asks that a \<open>list_diff_type\<close> outside
  \<open>value\<close> and \<open>index\<close> is rejected at construction time, never mid-merge. The
  setter does reject it, but \<open>__init__\<close> writes the field without the setter: the
  constructor accepts \<open>bogus\<close>, and the merge of two lists raises \<open>TypeError\<close>
  later.
\<close>

theorem init_skips_list_diff_type_check:
  "init ''present'' ''bogus'' = Inr \<lparr>merge_type = ''present'', list_diff_type = ''bogus''\<rparr>
   \<and> list_diff_type_setter ''bogus'' \<lparr>merge_type = ''present'', list_diff_type = ''value''\<rparr>
       = Inl ValueError
   \<and> get_new_merged_data \<lparr>merge_type = ''present'', list_diff_type = ''bogus''\<rparr>
       (PList [PInt 1]) (PList [PInt 2]) = Inl TypeError"
  by (simp add: init_def blank_def merge_type_setter_def list_diff_type_setter_def
        eval_simps)

subsection \<open>The dispatcher\<close>

lemma shape_mismatch_not_isinstance:
  "shape_of current \<noteq> shape_of expected \<Longrightarrow> \<not> isinstance current (type_of expected)"
  by (cases current; cases expected) (simp_all add: isinstance_def)

lemma isinstance_cases:
  assumes "isinstance current (type_of expected)"
  shows "(\<exists>c e. current = PList c \<and> expected = PList e)
       \<or> (\<exists>c e. current = PDict c \<and> expected = PDict e)
       \<or> (\<not> is_container current \<and> \<not> is_container expected)"
  using assms by (cases current; cases expected) (simp_all add: isinstance_def)

text \<open>
  Claim C7 (dispatcher type-mismatch policy). When the two operands have different shapes
  (mapping, sequence, scalar, null), \<open>get_new_merged_data\<close> returns \<open>expected\<close> under
  \<open>present\<close> and \<open>current\<close> under \<open>absent\<close>; it never raises. The dispatcher is the
  function every level of the recursion calls, so this holds at every level.
\<close>

theorem dispatcher_type_mismatch:
  assumes "shape_of current \<noteq> shape_of expected"
  shows "(merge_type cfg = ''present'' \<longrightarrow>
            get_new_merged_data cfg current expected = Inr expected)
       \<and> (merge_type cfg = ''absent'' \<longrightarrow>
            get_new_merged_data cfg current expected = Inr current)"
  using shape_mismatch_not_isinstance [OF assms]
  by (simp add: get_new_merged_data.simps)

theorem dispatcher_type_mismatch_witness:
  "get_new_merged_data \<lparr>merge_type = ''present'', list_diff_type = ''value''\<rparr>
     (PList [PInt 1]) (PDict [(KStr ''a'', PInt 2)]) = Inr (PDict [(KStr ''a'', PInt 2)])
   \<and> get_new_merged_data \<lparr>merge_type = ''absent'', list_diff_type = ''value''\<rparr>
     (PList [PInt 1]) (PStr ''a'') = Inr (PList [PInt 1])"
  using dispatcher_type_mismatch
          [of "PList [PInt 1]" "PDict [(KStr ''a'', PInt 2)]"
              "\<lparr>merge_type = ''present'', list_diff_type = ''value''\<rparr>"]
        dispatcher_type_mismatch
          [of "PList [PInt 1]" "PStr ''a''"
              "\<lparr>merge_type = ''absent'', list_diff_type = ''value''\<rparr>"]
  by simp

text \<open>
  Claim C8 (identic short-circuit). Under \<open>identic\<close> the dispatcher returns \<open>expected\<close>
  for any \<open>current\<close>; in particular merging a value with itself returns it.
\<close>

theorem identic_short_circuit:
  assumes "merge_type cfg = ''identic''"
  shows "get_new_merged_data cfg current expected = Inr expected
       \<and> get_new_merged_data cfg x x = Inr x"
  using assms by (simp add: get_new_merged_data.simps)

theorem identic_short_circuit_witness:
  "get_new_merged_data \<lparr>merge_type = ''identic'', list_diff_type = ''value''\<rparr>
     (PInt 3) (PDict [(KStr ''a'', PList [PNone])]) = Inr (PDict [(KStr ''a'', PList [PNone])])
   \<and> get_new_merged_data \<lparr>merge_type = ''identic'', list_diff_type = ''value''\<rparr>
     (PList [PInt 1]) (PList [PInt 1]) = Inr (PList [PInt 1])"
  using identic_short_circuit
          [of "\<lparr>merge_type = ''identic'', list_diff_type = ''value''\<rparr>"
              "PInt 3" "PDict [(KStr ''a'', PList [PNone])]" "PList [PInt 1]"]
  by simp

text \<open>
  Claim C10 (two scalars of the same kind) fails for two numbers of different Python
  types: \<open>isinstance(1, float)\<close> does not hold, so an \<open>int\<close> against a \<open>float\<close> is a
  mismatch, and under \<open>present\<close> the dispatcher returns the scalar \<open>expected\<close>.
\<close>

theorem int_against_float_returns_scalar:
  "get_new_merged_data \<lparr>merge_type = ''present'', list_diff_type = ''value''\<rparr>
     (PInt 1) (PFloat 2.5) = Inr (PFloat 2.5)"
  by (simp add: eval_simps)

text \<open>
  Claim C10 as amended (two scalars of one Python type). Under \<open>present\<close> or
  \<open>absent\<close>, two strings, two integers, two floats or two booleans pass the
  \<open>isinstance\<close> test, are not lists, and so go to \<open>get_new_merged_dict\<close>, where
  \<open>expected.keys()\<close> raises \<open>AttributeError\<close>: the call fails and returns no
  scalar.
\<close>

theorem same_type_scalars_fail:
  assumes "merge_type cfg = ''present'' \<or> merge_type cfg = ''absent''"
    and "shape_of current = Scalar"
    and "type_of current = type_of expected"
  shows "get_new_merged_data cfg current expected = Inl AttributeError"
  using assms
  by (cases current; cases expected)
     (auto simp: get_new_merged_data.simps isinstance_def)

theorem same_type_scalars_fail_witness:
  "get_new_merged_data \<lparr>merge_type = ''present'', list_diff_type = ''value''\<rparr>
     (PStr ''a'') (PStr ''b'') = Inl AttributeError"
  using same_type_scalars_fail
          [of "\<lparr>merge_type = ''present'', list_diff_type = ''value''\<rparr>"
              "PStr ''a''" "PStr ''b''"]
  by simp

text \<open>
  Two scalars of different types are a mismatch like any other (an \<open>int\<close> against a
  \<open>float\<close> too), but for a \<open>bool\<close> against an \<open>int\<close>: \<open>isinstance(True, int)\<close>
  holds, \<open>isinstance(1, bool)\<close> does not.
\<close>

lemma bool_against_int:
  "get_new_merged_data \<lparr>merge_type = ''present'', list_diff_type = ''value''\<rparr>
     (PBool True) (PInt 1) = Inl AttributeError"
  "get_new_merged_data \<lparr>merge_type = ''present'', list_diff_type = ''value''\<rparr>
     (PInt 1) (PBool True) = Inr (PBool True)"
  "get_new_merged_data \<lparr>merge_type = ''present'', list_diff_type = ''value''\<rparr>
     (PStr ''a'') (PInt 1) = Inr (PInt 1)"
  by (simp_all add: eval_simps)

subsection \<open>Sequences compared by value\<close>

text \<open>
  Claim C4 (sequence merge by value). With \<open>list_diff_type = value\<close>, under
  \<open>present\<close> the result is \<open>current\<close> followed by the elements of \<open>expected\<close>, in
  their order, that equal (Python's \<open>==\<close>) no element of \<open>current\<close>; every such
  element is appended, also one that occurs twice. Under \<open>absent\<close> the result is the
  elements of \<open>current\<close>, in their order, that equal no element of \<open>expected\<close>. The
  elements of the result are elements of the operands as they are: nothing is merged
  below the first level.
\<close>

theorem value_diff_list_merge:
  assumes "list_diff_type cfg = ''value''"
  shows "(merge_type cfg = ''present'' \<longrightarrow>
            get_new_merged_list cfg current expected =
              Inr (current @ filter (\<lambda>e. \<forall>c \<in> set current. \<not> py_eq c e) expected))
       \<and> (merge_type cfg = ''absent'' \<longrightarrow>
            get_new_merged_list cfg current expected =
              Inr (filter (\<lambda>c. \<forall>e \<in> set expected. \<not> py_eq e c) current))"
  using assms
  by (simp add: get_new_merged_list.simps get_new_merged_list_with_value_diff_def
        py_in_def list_ex_iff)

theorem value_diff_list_merge_witness:
  "get_new_merged_list \<lparr>merge_type = ''present'', list_diff_type = ''value''\<rparr>
     [PStr ''a'', PStr ''b''] [PStr ''c'', PStr ''b'', PStr ''c'']
     = Inr [PStr ''a'', PStr ''b'', PStr ''c'', PStr ''c'']
   \<and> get_new_merged_list \<lparr>merge_type = ''absent'', list_diff_type = ''value''\<rparr>
     [PStr ''a'', PStr ''b'', PStr ''c''] [PStr ''b'']
     = Inr [PStr ''a'', PStr ''c'']"
  using value_diff_list_merge
          [of "\<lparr>merge_type = ''present'', list_diff_type = ''value''\<rparr>"
              "[PStr ''a'', PStr ''b'']" "[PStr ''c'', PStr ''b'', PStr ''c'']"]
        value_diff_list_merge
          [of "\<lparr>merge_type = ''absent'', list_diff_type = ''value''\<rparr>"
              "[PStr ''a'', PStr ''b'', PStr ''c'']" "[PStr ''b'']"]
  by simp

subsection \<open>The loop of the mapping merger\<close>

lemma dict_get_dict_set:
  "dict_get (dict_set d k v) k' = (if k' = k then Some v else dict_get d k')"
  by (induction d) (auto simp: dict_get_def)

lemma dict_get_filter_neq:
  "dict_get (filter (\<lambda>kv. fst kv \<noteq> k) d) k' = (if k' = k then None else dict_get d k')"
  by (induction d) (auto simp: dict_get_def)

lemma dict_get_dict_pop:
  "dict_pop d k = Inr d' \<Longrightarrow> dict_get d' k' = (if k' = k then None else dict_get d k')"
  by (auto simp: dict_pop_def dict_get_filter_neq split: option.splits)

lemma py_eq_PNone_right: "py_eq a PNone \<longleftrightarrow> a = PNone"
  by (cases a) simp_all

lemma py_eq_PNone_left: "py_eq PNone b \<longleftrightarrow> b = PNone"
  by (cases b) simp_all

lemma loop_step:
  assumes "merged_dict_loop cfg current merged ((key, ev) # rest) = Inr m"
  shows "\<exists>merged'.
      merged_dict_loop cfg current merged' rest = Inr m
    \<and> (\<forall>k. k \<noteq> key \<longrightarrow> dict_get merged' k = dict_get merged k)
    \<and> (is_container ev \<and> is_container (py_get current key) \<longrightarrow>
         (\<exists>mv r. dict_get merged key = Some mv \<and> get_new_merged_data cfg mv ev = Inr r
            \<and> dict_get merged' key = Some r))
    \<and> (\<not> (is_container ev \<and> is_container (py_get current key)) \<longrightarrow>
         merge_type cfg = ''present'' \<and>
           dict_get merged' key = (if ev = PNone then dict_get merged key else Some ev)
       \<or> merge_type cfg = ''absent'' \<and>
           dict_get merged' key =
             (if py_eq (py_get merged key) ev then None else dict_get merged key))"
proof (cases "is_container ev \<and> is_container (py_get current key)")
  case True
  with assms obtain mv r where
    mv: "dict_get merged key = Some mv" and r: "get_new_merged_data cfg mv ev = Inr r"
    and m: "merged_dict_loop cfg current (dict_set merged key r) rest = Inr m"
    by (auto simp: merged_dict_loop.simps split: option.splits sum.splits)
  show ?thesis
    by (rule exI [of _ "dict_set merged key r"])
       (use True mv r m in \<open>simp add: dict_get_dict_set\<close>)
next
  case False
  show ?thesis
  proof (cases "merge_type cfg = ''present''")
    case True
    show ?thesis
    proof (cases "ev = PNone")
      case none: True
      with False True assms
      have "merged_dict_loop cfg current merged rest = Inr m"
        by (auto simp: merged_dict_loop.simps split: if_splits)
      then show ?thesis
        by (intro exI [of _ merged]) (use False True none in auto)
    next
      case some: False
      with False True assms
      have "merged_dict_loop cfg current (dict_set merged key ev) rest = Inr m"
        by (auto simp: merged_dict_loop.simps split: if_splits)
      then show ?thesis
        by (intro exI [of _ "dict_set merged key ev"])
           (use False True some in \<open>auto simp: dict_get_dict_set\<close>)
    qed
  next
    case np: False
    with False assms have ab: "merge_type cfg = ''absent''"
      by (auto simp: merged_dict_loop.simps split: if_splits)
    show ?thesis
    proof (cases "py_eq (py_get merged key) ev")
      case True
      with False np ab assms obtain m' where
        pop: "dict_pop merged key = Inr m'"
        and m: "merged_dict_loop cfg current m' rest = Inr m"
        by (auto simp: merged_dict_loop.simps split: sum.splits if_splits)
      show ?thesis
        by (intro exI [of _ m'])
           (use False True ab np m dict_get_dict_pop [OF pop] in auto)
    next
      case ne: False
      with False np ab assms have "merged_dict_loop cfg current merged rest = Inr m"
        by (auto simp: merged_dict_loop.simps split: if_splits)
      then show ?thesis
        by (intro exI [of _ merged]) (use False ne ab np in auto)
    qed
  qed
qed

lemma loop_frame:
  assumes "merged_dict_loop cfg current merged rest = Inr m" and "k \<notin> fst ` set rest"
  shows "dict_get m k = dict_get merged k"
  using assms
proof (induction rest arbitrary: merged)
  case Nil
  then show ?case by (simp add: merged_dict_loop.simps)
next
  case (Cons item rest)
  obtain key ev where item: "item = (key, ev)" by (cases item)
  from loop_step [OF Cons.prems(1) [unfolded item]] obtain merged' where
    m: "merged_dict_loop cfg current merged' rest = Inr m"
    and other: "\<And>k. k \<noteq> key \<Longrightarrow> dict_get merged' k = dict_get merged k"
    by blast
  from Cons.prems(2) item have "k \<noteq> key" "k \<notin> fst ` set rest" by auto
  with Cons.IH [OF m] other show ?case by simp
qed

lemma mixed_containers_not_isinstance:
  "is_container a \<Longrightarrow> is_container b \<Longrightarrow> \<not> same_composite_kind a b
     \<Longrightarrow> \<not> isinstance b (type_of a)"
  by (cases a; cases b) (simp_all add: same_composite_kind_def isinstance_def)

lemma present_loop_at:
  assumes "merge_type cfg = ''present''"
    and "merged_dict_loop cfg current merged rest = Inr m"
    and "distinct (map fst rest)"
    and "(k, ev) \<in> set rest"
    and "\<not> same_composite_kind ev (py_get current k)"
    and "dict_get merged k = dict_get current k"
  shows "dict_get m k = (if ev = PNone then dict_get current k else Some ev)"
  using assms(2-)
proof (induction rest arbitrary: merged)
  case Nil
  then show ?case by simp
next
  case (Cons item rest)
  obtain key v where item: "item = (key, v)" by (cases item)
  from loop_step [OF Cons.prems(1) [unfolded item]] obtain merged' where
    m: "merged_dict_loop cfg current merged' rest = Inr m"
    and other: "\<And>k. k \<noteq> key \<Longrightarrow> dict_get merged' k = dict_get merged k"
    and rec: "is_container v \<and> is_container (py_get current key) \<Longrightarrow>
       \<exists>mv r. dict_get merged key = Some mv \<and> get_new_merged_data cfg mv v = Inr r
            \<and> dict_get merged' key = Some r"
    and flat: "\<not> (is_container v \<and> is_container (py_get current key)) \<Longrightarrow>
       merge_type cfg = ''present'' \<and>
         dict_get merged' key = (if v = PNone then dict_get merged key else Some v)
     \<or> merge_type cfg = ''absent'' \<and>
         dict_get merged' key = (if py_eq (py_get merged key) v then None else dict_get merged key)"
    by blast
  show ?case
  proof (cases "k = key")
    case True
    with Cons.prems(2,3) item have ev: "ev = v" and notin: "k \<notin> fst ` set rest"
      by (auto simp: rev_image_eqI)
    have frame: "dict_get m k = dict_get merged' k"
      using m notin by (rule loop_frame)
    show ?thesis
    proof (cases "is_container v \<and> is_container (py_get current key)")
      case c: True
      with rec obtain mv r where mv: "dict_get merged key = Some mv"
        and r: "get_new_merged_data cfg mv v = Inr r" and m': "dict_get merged' key = Some r"
        by blast
      from mv Cons.prems(5) True have "py_get current key = mv"
        by (auto simp: py_get_def split: option.splits)
      with c Cons.prems(4) True ev have "\<not> isinstance mv (type_of v)"
        by (simp add: mixed_containers_not_isinstance)
      with r assms(1) have "r = v"
        by (simp add: get_new_merged_data.simps)
      moreover from c have "v \<noteq> PNone" by auto
      ultimately show ?thesis using frame m' True ev by simp
    next
      case False
      with flat assms(1) have "dict_get merged' key = (if v = PNone then dict_get merged key else Some v)"
        by auto
      with frame True ev Cons.prems(5) show ?thesis by simp
    qed
  next
    case False
    with Cons.prems(3) item have "(k, ev) \<in> set rest" by auto
    moreover from Cons.prems(2) have "distinct (map fst rest)" by simp
    moreover from other False Cons.prems(5) have "dict_get merged' k = dict_get current k" by simp
    ultimately show ?thesis using Cons.IH [OF m] Cons.prems(4) by blast
  qed
qed

lemma absent_loop_at:
  assumes "merge_type cfg = ''absent''"
    and "merged_dict_loop cfg current merged rest = Inr m"
    and "distinct (map fst rest)"
    and "(k, ev) \<in> set rest"
    and "\<not> same_composite_kind ev (py_get current k)"
    and "dict_get merged k = dict_get current k"
  shows "dict_get m k = (if py_eq (py_get current k) ev then None else dict_get current k)"
  using assms(2-)
proof (induction rest arbitrary: merged)
  case Nil
  then show ?case by simp
next
  case (Cons item rest)
  obtain key v where item: "item = (key, v)" by (cases item)
  from loop_step [OF Cons.prems(1) [unfolded item]] obtain merged' where
    m: "merged_dict_loop cfg current merged' rest = Inr m"
    and other: "\<And>k. k \<noteq> key \<Longrightarrow> dict_get merged' k = dict_get merged k"
    and rec: "is_container v \<and> is_container (py_get current key) \<Longrightarrow>
       \<exists>mv r. dict_get merged key = Some mv \<and> get_new_merged_data cfg mv v = Inr r
            \<and> dict_get merged' key = Some r"
    and flat: "\<not> (is_container v \<and> is_container (py_get current key)) \<Longrightarrow>
       merge_type cfg = ''present'' \<and>
         dict_get merged' key = (if v = PNone then dict_get merged key else Some v)
     \<or> merge_type cfg = ''absent'' \<and>
         dict_get merged' key = (if py_eq (py_get merged key) v then None else dict_get merged key)"
    by blast
  show ?case
  proof (cases "k = key")
    case True
    with Cons.prems(2,3) item have ev: "ev = v" and notin: "k \<notin> fst ` set rest"
      by (auto simp: rev_image_eqI)
    have frame: "dict_get m k = dict_get merged' k"
      using m notin by (rule loop_frame)
    from Cons.prems(5) True have get: "py_get merged key = py_get current key"
      by (simp add: py_get_def)
    show ?thesis
    proof (cases "is_container v \<and> is_container (py_get current key)")
      case c: True
      with rec obtain mv r where mv: "dict_get merged key = Some mv"
        and r: "get_new_merged_data cfg mv v = Inr r" and m': "dict_get merged' key = Some r"
        by blast
      from mv Cons.prems(5) True have cur: "py_get current key = mv" "dict_get current key = Some mv"
        by (auto simp: py_get_def split: option.splits)
      with c Cons.prems(4) True ev have ni: "\<not> isinstance mv (type_of v)"
        by (simp add: mixed_containers_not_isinstance)
      with r assms(1) have "r = mv"
        by (simp add: get_new_merged_data.simps)
      moreover from c cur ni have "\<not> py_eq mv v"
        by (cases mv; cases v) (simp_all add: isinstance_def)
      ultimately show ?thesis using frame m' True ev cur by simp
    next
      case False
      with flat assms(1) have "dict_get merged' key =
          (if py_eq (py_get merged key) v then None else dict_get merged key)"
        by auto
      with frame True ev Cons.prems(5) get show ?thesis by simp
    qed
  next
    case False
    with Cons.prems(3) item have "(k, ev) \<in> set rest" by auto
    moreover from Cons.prems(2) have "distinct (map fst rest)" by simp
    moreover from other False Cons.prems(5) have "dict_get merged' k = dict_get current k" by simp
    ultimately show ?thesis using Cons.IH [OF m] Cons.prems(4) by blast
  qed
qed

subsection \<open>Which calls complete\<close>

lemma completes_map_sum [simp]: "completes cfg (map_sum id f res) = completes cfg res"
  by (cases res) (simp_all add: completes_def)

lemma completes_Inr [simp]: "completes cfg (Inr r)"
  by (simp add: completes_def)

lemma map_fst_enumerate_keys:
  "map fst (map (\<lambda>(i, v). (KInt (int i), v)) (enumerate n xs)) =
     map (\<lambda>i. KInt (int i)) [n ..< n + length xs]"
  by (induction xs arbitrary: n) (simp_all add: upt_rec)

lemma distinct_convert_list_to_dict: "distinct (map fst (convert_list_to_dict xs))"
proof -
  have "map fst (convert_list_to_dict xs) = map (\<lambda>i. KInt (int i)) [0 ..< 0 + length xs]"
    unfolding convert_list_to_dict_def by (rule map_fst_enumerate_keys)
  then show ?thesis
    by (simp add: distinct_map inj_on_def)
qed

lemma wf_items_enumerate:
  "wf_items (map (\<lambda>(i, v). (KInt (int i), v)) (enumerate n xs)) = wf_list xs"
  by (induction xs arbitrary: n) simp_all

lemma wf_items_convert [simp]: "wf_items (convert_list_to_dict xs) = wf_list xs"
  by (simp add: convert_list_to_dict_def wf_items_enumerate)

lemma py_get_container_Some:
  "is_container (py_get d k) \<Longrightarrow> \<exists>v. dict_get d k = Some v \<and> is_container v"
  by (cases "dict_get d k") (simp_all add: py_get_def)

lemma py_eq_not_None:
  "py_eq (py_get d k) ev \<Longrightarrow> ev \<noteq> PNone \<Longrightarrow> \<exists>v. dict_get d k = Some v"
  by (cases "dict_get d k") (simp_all add: py_get_def py_eq_PNone_left)

lemma dict_pop_Some: "dict_get d k = Some v \<Longrightarrow> \<exists>d'. dict_pop d k = Inr d'"
  by (simp add: dict_pop_def)

lemma merge_completes:
  shows "merge_type cfg \<in> set [''identic'', ''present'', ''absent''] \<Longrightarrow>
         wf_val expected \<Longrightarrow>
         (merge_type cfg = ''absent'' \<longrightarrow> null_covered cfg current expected) \<Longrightarrow>
         is_container current \<or> is_container expected \<Longrightarrow>
         completes cfg (get_new_merged_data cfg current expected)"
    and "merge_type cfg \<in> set [''identic'', ''present'', ''absent''] \<Longrightarrow>
         distinct (map fst e) \<Longrightarrow> wf_items e \<Longrightarrow>
         (merge_type cfg = ''absent'' \<longrightarrow> null_covered_items cfg c e) \<Longrightarrow>
         completes cfg (get_new_merged_dict cfg c e)"
    and "merge_type cfg \<in> set [''present'', ''absent''] \<Longrightarrow>
         distinct (map fst rest) \<Longrightarrow> wf_items rest \<Longrightarrow>
         (merge_type cfg = ''absent'' \<longrightarrow> null_covered_items cfg c rest) \<Longrightarrow>
         (\<forall>k \<in> fst ` set rest. dict_get merged k = dict_get c k) \<Longrightarrow>
         completes cfg (merged_dict_loop cfg c merged rest)"
    and "merge_type cfg \<in> set [''identic'', ''present'', ''absent''] \<Longrightarrow>
         wf_list el \<Longrightarrow>
         (merge_type cfg = ''absent'' \<and> list_diff_type cfg = ''index'' \<longrightarrow>
            null_covered_items cfg (convert_list_to_dict cl) (convert_list_to_dict el)) \<Longrightarrow>
         completes cfg (get_new_merged_list cfg cl el)"
    and "merge_type cfg \<in> set [''identic'', ''present'', ''absent''] \<Longrightarrow>
         wf_list el \<Longrightarrow>
         (merge_type cfg = ''absent'' \<longrightarrow>
            null_covered_items cfg (convert_list_to_dict cl) (convert_list_to_dict el)) \<Longrightarrow>
         completes cfg (get_new_merged_list_with_index_diff cfg cl el)"
proof (induction cfg current expected and cfg c e and cfg c merged rest
         and cfg cl el and cfg cl el
       rule: get_new_merged_data_get_new_merged_dict_merged_dict_loop_get_new_merged_list_get_new_merged_list_with_index_diff.induct)
  case (1 cfg current expected)
  show ?case
  proof (cases "merge_type cfg = ''identic'' \<or> \<not> isinstance current (type_of expected)")
    case True
    with "1.prems"(1) show ?thesis
      by (auto simp: get_new_merged_data.simps)
  next
    case False
    then have ni: "merge_type cfg \<noteq> ''identic''" and inst: "isinstance current (type_of expected)"
      by simp_all
    from isinstance_cases [OF inst] "1.prems"(4) consider
      (lists) c e where "current = PList c" "expected = PList e"
      | (dicts) c e where "current = PDict c" "expected = PDict e"
      by auto
    then show ?thesis
    proof cases
      case lists
      have "completes cfg (get_new_merged_list cfg c e)"
        using "1.IH"(1) [of current expected c e] ni inst lists "1.prems"
        by (simp add: null_covered.simps)
      with ni inst lists show ?thesis
        by (simp add: get_new_merged_data.simps)
    next
      case dicts
      have "completes cfg (get_new_merged_dict cfg c e)"
        using "1.IH"(2) [of current expected c e] ni inst dicts "1.prems"
        by (simp add: null_covered.simps)
      with ni inst dicts show ?thesis
        by (simp add: get_new_merged_data.simps)
    qed
  qed
next
  case (2 cfg current expected)
  then show ?case
    by (cases "merge_type cfg = ''identic''") (simp_all add: get_new_merged_dict.simps)
next
  case (3 cfg current merged)
  show ?case by (simp add: merged_dict_loop.simps)
next
  case (4 cfg current merged key ev rest)
  from "4.prems" have mt: "merge_type cfg \<in> set [''present'', ''absent'']"
    and dist: "distinct (map fst rest)" and fresh: "key \<notin> fst ` set rest"
    and wf: "wf_val ev" "wf_items rest"
    and nf: "merge_type cfg = ''absent'' \<longrightarrow> null_covered_items cfg current rest"
    and nfk: "merge_type cfg = ''absent'' \<longrightarrow>
       (if is_container ev \<and> is_container (py_get current key)
        then null_covered cfg (py_get current key) ev
        else ev = PNone \<longrightarrow> dict_get current key \<noteq> None)"
    and same: "dict_get merged key = dict_get current key"
    and inv: "\<forall>k \<in> fst ` set rest. dict_get merged k = dict_get current k"
    by auto
  have keep: "\<forall>k \<in> fst ` set rest. dict_get m k = dict_get current k"
    if "\<And>k. k \<noteq> key \<Longrightarrow> dict_get m k = dict_get merged k" for m
  proof
    fix k
    assume k: "k \<in> fst ` set rest"
    with fresh have "k \<noteq> key" by auto
    then have "dict_get m k = dict_get merged k" by (rule that)
    also from inv k have "\<dots> = dict_get current k" by (rule bspec)
    finally show "dict_get m k = dict_get current k" .
  qed
  show ?case
  proof (cases "is_container ev \<and> is_container (py_get current key)")
    case True
    then obtain mv where mv: "dict_get merged key = Some mv"
      using py_get_container_Some [of current key] same by auto
    from mv same have cur: "py_get current key = mv"
      by (simp add: py_get_def)
    have data: "completes cfg (get_new_merged_data cfg mv ev)"
      using "4.IH"(1) [OF True mv] mt wf nfk True cur by simp
    show ?thesis
    proof (cases "get_new_merged_data cfg mv ev")
      case (Inl err)
      with data True mv show ?thesis
        by (simp add: merged_dict_loop.simps completes_def)
    next
      case (Inr r)
      have "completes cfg (merged_dict_loop cfg current (dict_set merged key r) rest)"
        using "4.IH"(2) [OF True mv Inr] mt dist wf nf keep [of "dict_set merged key r"]
        by (simp add: dict_get_dict_set)
      with True mv Inr show ?thesis
        by (simp add: merged_dict_loop.simps)
    qed
  next
    case False
    show ?thesis
    proof (cases "merge_type cfg = ''present''")
      case True
      show ?thesis
      proof (cases "ev = PNone")
        case none: True
        have "completes cfg (merged_dict_loop cfg current merged rest)"
          using "4.IH"(3) [OF False True none] mt dist wf nf inv by simp
        with False True none show ?thesis
          by (auto simp: merged_dict_loop.simps)
      next
        case some: False
        have "completes cfg (merged_dict_loop cfg current (dict_set merged key ev) rest)"
          using "4.IH"(4) [OF False True some] mt dist wf nf keep [of "dict_set merged key ev"]
          by (simp add: dict_get_dict_set)
        with False True some show ?thesis
          by (auto simp: merged_dict_loop.simps)
      qed
    next
      case np: False
      show ?thesis
      proof (cases "merge_type cfg = ''absent''")
        case ab: True
        show ?thesis
        proof (cases "py_eq (py_get merged key) ev")
          case True
          have "\<exists>v. dict_get merged key = Some v"
          proof (cases "ev = PNone")
            case True
            with ab nfk False same show ?thesis by auto
          next
            case False
            with True show ?thesis by (rule py_eq_not_None)
          qed
          then obtain v where "dict_get merged key = Some v" ..
          then obtain m' where pop: "dict_pop merged key = Inr m'"
            using dict_pop_Some [of merged key v] by blast
          have "completes cfg (merged_dict_loop cfg current m' rest)"
            using "4.IH"(5) [OF False np ab True pop] mt dist wf nf ab
              keep [of m'] dict_get_dict_pop [OF pop]
            by simp
          with False np ab True pop show ?thesis
            by (auto simp: merged_dict_loop.simps)
        next
          case ne: False
          have "completes cfg (merged_dict_loop cfg current merged rest)"
            using "4.IH"(6) [OF False np ab ne] mt dist wf nf inv by simp
          with False np ab ne show ?thesis
            by (auto simp: merged_dict_loop.simps)
        qed
      next
        case False
        with np mt show ?thesis by simp
      qed
    qed
  qed
next
  case (5 cfg current expected)
  show ?case
  proof (cases "merge_type cfg = ''identic'' \<or> list_diff_type cfg = ''value''")
    case True
    with "5.prems"(1) show ?thesis
      by (auto simp: get_new_merged_list.simps get_new_merged_list_with_value_diff_def)
  next
    case False
    show ?thesis
    proof (cases "list_diff_type cfg = ''index''")
      case True
      with False "5.IH" "5.prems" show ?thesis
        by (simp add: get_new_merged_list.simps)
    next
      case nidx: False
      with False show ?thesis
        by (simp add: get_new_merged_list.simps completes_def)
    qed
  qed
next
  case (6 cfg current expected)
  have "completes cfg (get_new_merged_dict cfg (convert_list_to_dict current)
          (convert_list_to_dict expected))"
    using "6.IH" "6.prems" by (simp add: distinct_convert_list_to_dict)
  then show ?case
    by (simp add: get_new_merged_list_with_index_diff.simps)
qed

subsection \<open>The mapping merger\<close>

text \<open>
  Claim C1 (mapping merge under \<open>present\<close>). Let \<open>expected\<close> hold no key twice. If
  moreover the dictionaries nested in \<open>expected\<close> hold no key twice and
  \<open>list_diff_type\<close> is \<open>value\<close> or \<open>index\<close>, the merge returns. Whenever it returns
  \<open>m\<close>: a key that is not in \<open>expected\<close> is bound in \<open>m\<close> as in \<open>current\<close>
  (absent if absent); for an item \<open>(k, ev)\<close> of \<open>expected\<close> outside the recursion
  case, \<open>m\<close> is at \<open>k\<close> as \<open>current\<close> is when \<open>ev\<close> is \<open>None\<close>, and binds
  \<open>k\<close> to \<open>ev\<close> otherwise.
\<close>

theorem present_mapping_merge:
  assumes "merge_type cfg = ''present''" and "distinct (map fst expected)"
  shows "(wf_items expected \<and> list_diff_type cfg \<in> set [''value'', ''index''] \<longrightarrow>
            (\<exists>m. get_new_merged_dict cfg current expected = Inr m))
       \<and> (\<forall>m. get_new_merged_dict cfg current expected = Inr m \<longrightarrow>
            (\<forall>k. k \<notin> fst ` set expected \<longrightarrow> dict_get m k = dict_get current k)
          \<and> (\<forall>(k, ev) \<in> set expected.
                \<not> same_composite_kind ev (py_get current k) \<longrightarrow>
                dict_get m k = (if ev = PNone then dict_get current k else Some ev)))"
proof (intro conjI impI allI)
  assume "wf_items expected \<and> list_diff_type cfg \<in> set [''value'', ''index'']"
  with assms merge_completes(2) [of cfg expected current]
  have "completes cfg (get_new_merged_dict cfg current expected)"
    and "list_diff_type cfg \<in> set [''value'', ''index'']"
    by simp_all
  then show "\<exists>m. get_new_merged_dict cfg current expected = Inr m"
    by (cases "get_new_merged_dict cfg current expected") (simp_all add: completes_def)
next
  fix m k
  assume "get_new_merged_dict cfg current expected = Inr m" and "k \<notin> fst ` set expected"
  with assms(1) show "dict_get m k = dict_get current k"
    by (simp add: get_new_merged_dict.simps loop_frame)
next
  fix m
  assume res: "get_new_merged_dict cfg current expected = Inr m"
  with assms(1) have loop: "merged_dict_loop cfg current current expected = Inr m"
    by (simp add: get_new_merged_dict.simps)
  show "\<forall>(k, ev) \<in> set expected.
          \<not> same_composite_kind ev (py_get current k) \<longrightarrow>
          dict_get m k = (if ev = PNone then dict_get current k else Some ev)"
    using present_loop_at [OF assms(1) loop assms(2)] by blast
qed

theorem present_mapping_merge_witness:
  "get_new_merged_dict \<lparr>merge_type = ''present'', list_diff_type = ''value''\<rparr>
     [(KStr ''A'', PInt 1), (KStr ''B'', PList [PInt 2]), (KStr ''C'', PInt 4)]
     [(KStr ''A'', PNone), (KStr ''B'', PDict []), (KStr ''D'', PInt 7)]
   = Inr [(KStr ''A'', PInt 1), (KStr ''B'', PDict []), (KStr ''C'', PInt 4), (KStr ''D'', PInt 7)]
   \<and> dict_get [(KStr ''A'', PInt 1), (KStr ''B'', PDict []), (KStr ''C'', PInt 4), (KStr ''D'', PInt 7)]
        (KStr ''C'') = Some (PInt 4)"
proof -
  let ?cfg = "\<lparr>merge_type = ''present'', list_diff_type = ''value''\<rparr>"
  let ?cur = "[(KStr ''A'', PInt 1), (KStr ''B'', PList [PInt 2]), (KStr ''C'', PInt 4)]"
  let ?exp = "[(KStr ''A'', PNone), (KStr ''B'', PDict []), (KStr ''D'', PInt 7)]"
  have res: "get_new_merged_dict ?cfg ?cur ?exp
      = Inr [(KStr ''A'', PInt 1), (KStr ''B'', PDict []), (KStr ''C'', PInt 4), (KStr ''D'', PInt 7)]"
    by (simp add: eval_simps)
  have "merge_type ?cfg = ''present''" and "distinct (map fst ?exp)" by simp_all
  from present_mapping_merge [OF this, of ?cur] res
  have "dict_get [(KStr ''A'', PInt 1), (KStr ''B'', PDict []), (KStr ''C'', PInt 4), (KStr ''D'', PInt 7)]
          (KStr ''C'') = dict_get ?cur (KStr ''C'')"
    by simp
  with res show ?thesis by (simp add: dict_get_def)
qed

text \<open>
  Under \<open>absent\<close>, whenever the merge returns: a key that is not in \<open>expected\<close> is
  bound as in \<open>current\<close>, and an item \<open>(k, ev)\<close> of \<open>expected\<close> outside the recursion
  case removes \<open>k\<close> when \<open>current.get(k) == ev\<close> and leaves it as it is otherwise.
\<close>

lemma absent_mapping_merge_when_it_returns:
  assumes "merge_type cfg = ''absent''" and "distinct (map fst expected)"
    and "get_new_merged_dict cfg current expected = Inr m"
  shows "\<forall>k. k \<notin> fst ` set expected \<longrightarrow> dict_get m k = dict_get current k"
    and "\<forall>(k, ev) \<in> set expected.
           \<not> same_composite_kind ev (py_get current k) \<longrightarrow>
           dict_get m k = (if py_eq (py_get current k) ev then None else dict_get current k)"
proof -
  from assms(1,3) have loop: "merged_dict_loop cfg current current expected = Inr m"
    by (simp add: get_new_merged_dict.simps)
  then show "\<forall>k. k \<notin> fst ` set expected \<longrightarrow> dict_get m k = dict_get current k"
    by (simp add: loop_frame)
  show "\<forall>(k, ev) \<in> set expected.
           \<not> same_composite_kind ev (py_get current k) \<longrightarrow>
           dict_get m k = (if py_eq (py_get current k) ev then None else dict_get current k)"
    using absent_loop_at [OF assms(1) loop assms(2)] by blast
qed

text \<open>
  Claim C2 (mapping merge under \<open>absent\<close>) asks that a key of \<open>expected\<close> that
  \<open>merged\<close> does not hold is left alone and the call returns, also when
  \<open>expected[k]\<close> is \<open>None\<close>. There \<open>merged.get(key)\<close> answers \<open>None\<close> for the
  missing key, the test \<open>None == None\<close> succeeds, and \<open>merged.pop(key)\<close>
  raises \<open>KeyError\<close>. The same happens by index, for a \<open>None\<close> beyond the end of
  \<open>current\<close>.
\<close>

theorem absent_null_at_missing_key_raises:
  "get_new_merged_dict \<lparr>merge_type = ''absent'', list_diff_type = ''value''\<rparr>
     [] [(KStr ''a'', PNone)] = Inl KeyError
   \<and> get_new_merged_data \<lparr>merge_type = ''absent'', list_diff_type = ''index''\<rparr>
     (PList [PInt 4]) (PList [PInt 4, PNone]) = Inl KeyError"
  by (simp add: eval_simps)

text \<open>The two worked examples of the specification (recursive merge of a dictionary).\<close>

lemma worked_example_present:
  "get_new_merged_data \<lparr>merge_type = ''present'', list_diff_type = ''value''\<rparr>
     (PDict [(KStr ''A'', PDict [(KStr ''AA'', PStr ''1'')]),
             (KStr ''B'', PList [PStr ''2'', PStr ''3'']), (KStr ''C'', PStr ''4'')])
     (PDict [(KStr ''A'', PDict [(KStr ''AB'', PStr ''9'')]),
             (KStr ''B'', PList [PStr ''8'', PStr ''2'']), (KStr ''C'', PStr ''7'')])
   = Inr (PDict [(KStr ''A'', PDict [(KStr ''AA'', PStr ''1''), (KStr ''AB'', PStr ''9'')]),
                 (KStr ''B'', PList [PStr ''2'', PStr ''3'', PStr ''8'']),
                 (KStr ''C'', PStr ''7'')])"
  by (simp add: eval_simps)

lemma worked_example_absent:
  "get_new_merged_data \<lparr>merge_type = ''absent'', list_diff_type = ''value''\<rparr>
     (PDict [(KStr ''A'', PDict [(KStr ''AA'', PStr ''1''), (KStr ''AB'', PStr ''2'')]),
             (KStr ''B'', PList [PStr ''3'', PStr ''4'']), (KStr ''C'', PStr ''5'')])
     (PDict [(KStr ''A'', PDict [(KStr ''AA'', PStr ''1'')]),
             (KStr ''B'', PList [PStr ''3'', PStr ''9'']), (KStr ''C'', PStr ''8'')])
   = Inr (PDict [(KStr ''A'', PDict [(KStr ''AB'', PStr ''2'')]),
                 (KStr ''B'', PList [PStr ''4'']), (KStr ''C'', PStr ''5'')])"
  by (simp add: eval_simps)

subsection \<open>Sequences compared by index\<close>

lemma map_fst_dict_set:
  "map fst (dict_set d k v) = (if k \<in> fst ` set d then map fst d else map fst d @ [k])"
  by (induction d) (auto simp: rev_image_eqI)

lemma map_fst_dict_pop:
  "dict_pop d k = Inr d' \<Longrightarrow> map fst d' = filter (\<lambda>x. x \<noteq> k) (map fst d)"
  by (auto simp: dict_pop_def filter_map comp_def split: option.splits)

lemma dict_get_Some_key: "dict_get d k = Some v \<Longrightarrow> k \<in> fst ` set d"
  by (auto simp: dict_get_def dest: map_of_SomeD intro: rev_image_eqI)

lemma loop_step_keys:
  assumes "merged_dict_loop cfg current merged ((key, ev) # rest) = Inr m"
  shows "\<exists>merged'.
      merged_dict_loop cfg current merged' rest = Inr m
    \<and> (map fst merged' = map fst merged
       \<or> key \<notin> fst ` set merged \<and> map fst merged' = map fst merged @ [key]
       \<or> map fst merged' = filter (\<lambda>x. x \<noteq> key) (map fst merged))"
proof (cases "is_container ev \<and> is_container (py_get current key)")
  case True
  with assms obtain mv r where
    mv: "dict_get merged key = Some mv"
    and m: "merged_dict_loop cfg current (dict_set merged key r) rest = Inr m"
    by (auto simp: merged_dict_loop.simps split: option.splits sum.splits)
  from mv have "map fst (dict_set merged key r) = map fst merged"
    by (simp add: map_fst_dict_set dict_get_Some_key)
  with m show ?thesis by blast
next
  case False
  show ?thesis
  proof (cases "merge_type cfg = ''present''")
    case True
    show ?thesis
    proof (cases "ev = PNone")
      case none: True
      with False True assms
      have "merged_dict_loop cfg current merged rest = Inr m"
        by (auto simp: merged_dict_loop.simps split: if_splits)
      then show ?thesis by blast
    next
      case some: False
      with False True assms
      have "merged_dict_loop cfg current (dict_set merged key ev) rest = Inr m"
        by (auto simp: merged_dict_loop.simps split: if_splits)
      moreover have "map fst (dict_set merged key ev) = map fst merged
          \<or> key \<notin> fst ` set merged \<and> map fst (dict_set merged key ev) = map fst merged @ [key]"
        by (simp add: map_fst_dict_set)
      ultimately show ?thesis by blast
    qed
  next
    case np: False
    with False assms have ab: "merge_type cfg = ''absent''"
      by (auto simp: merged_dict_loop.simps split: if_splits)
    show ?thesis
    proof (cases "py_eq (py_get merged key) ev")
      case True
      with False np ab assms obtain m' where
        pop: "dict_pop merged key = Inr m'"
        and m: "merged_dict_loop cfg current m' rest = Inr m"
        by (auto simp: merged_dict_loop.simps split: sum.splits if_splits)
      from map_fst_dict_pop [OF pop] m show ?thesis by blast
    next
      case ne: False
      with False np ab assms have "merged_dict_loop cfg current merged rest = Inr m"
        by (auto simp: merged_dict_loop.simps split: if_splits)
      then show ?thesis by blast
    qed
  qed
qed

lemma positional_same_keys:
  assumes "positional len n d" and "map fst d' = map fst d"
  shows "positional len (Suc n) d'"
proof -
  have "set (map fst d') = set (map fst d)"
    by (simp only: assms(2))
  then have keys: "fst ` set d' = fst ` set d"
    by simp
  have "\<forall>k \<in> fst ` set d. \<exists>i. k = KInt (int i) \<and> i < max len (Suc n)"
  proof
    fix k assume "k \<in> fst ` set d"
    with assms(1) obtain i where "k = KInt (int i)" "i < max len n"
      unfolding positional_def by blast
    then have "k = KInt (int i) \<and> i < max len (Suc n)" by auto
    then show "\<exists>i. k = KInt (int i) \<and> i < max len (Suc n)" ..
  qed
  moreover have "\<forall>i. Suc n \<le> i \<and> i < len \<longrightarrow> KInt (int i) \<in> fst ` set d"
    using assms(1) unfolding positional_def by auto
  moreover have "sorted_wrt (<) (map position (map fst d))"
    using assms(1) unfolding positional_def by simp
  ultimately show ?thesis
    unfolding positional_def keys assms(2) by blast
qed

lemma positional_append:
  assumes "positional len n d" and "KInt (int n) \<notin> fst ` set d"
    and "map fst d' = map fst d @ [KInt (int n)]"
  shows "positional len (Suc n) d'"
proof -
  have len: "len \<le> n"
  proof (rule ccontr)
    assume "\<not> len \<le> n"
    then have "n \<le> n \<and> n < len" by simp
    with assms(1) have "KInt (int n) \<in> fst ` set d"
      unfolding positional_def by blast
    with assms(2) show False by simp
  qed
  have "set (map fst d') = set (map fst d @ [KInt (int n)])"
    by (simp only: assms(3))
  then have keys: "fst ` set d' = insert (KInt (int n)) (fst ` set d)"
    by simp
  have below: "\<forall>x \<in> set (map position (map fst d)). x < int n"
  proof
    fix x assume "x \<in> set (map position (map fst d))"
    then obtain k where k: "k \<in> fst ` set d" and x: "x = position k" by auto
    with assms(1) obtain i where "k = KInt (int i)" "i < max len n"
      unfolding positional_def by blast
    with len x show "x < int n" by (simp add: position_def)
  qed
  have "sorted_wrt (<) (map position (map fst d'))"
    using assms(1) below unfolding positional_def assms(3)
    by (simp add: sorted_wrt_append position_def)
  moreover have "\<forall>k \<in> fst ` set d'. \<exists>i. k = KInt (int i) \<and> i < max len (Suc n)"
  proof
    fix k assume "k \<in> fst ` set d'"
    then consider "k = KInt (int n)" | "k \<in> fst ` set d" unfolding keys by blast
    then show "\<exists>i. k = KInt (int i) \<and> i < max len (Suc n)"
    proof cases
      case 1
      then have "k = KInt (int n) \<and> n < max len (Suc n)" by simp
      then show ?thesis ..
    next
      case 2
      with assms(1) obtain i where "k = KInt (int i)" "i < max len n"
        unfolding positional_def by blast
      then have "k = KInt (int i) \<and> i < max len (Suc n)" by auto
      then show ?thesis ..
    qed
  qed
  moreover have "\<forall>i. Suc n \<le> i \<and> i < len \<longrightarrow> KInt (int i) \<in> fst ` set d'"
    using len by auto
  ultimately show ?thesis unfolding positional_def by blast
qed

lemma positional_remove:
  assumes "positional len n d"
    and "map fst d' = filter (\<lambda>x. x \<noteq> KInt (int n)) (map fst d)"
  shows "positional len (Suc n) d'"
proof -
  have "set (map fst d') = set (filter (\<lambda>x. x \<noteq> KInt (int n)) (map fst d))"
    by (simp only: assms(2))
  then have keys: "fst ` set d' = fst ` set d - {KInt (int n)}"
    by auto
  have "sorted_wrt (<) (map position (map fst d'))"
    using assms(1) unfolding positional_def assms(2)
    by (simp add: sorted_wrt_filter sorted_wrt_map)
  moreover have "\<forall>k \<in> fst ` set d'. \<exists>i. k = KInt (int i) \<and> i < max len (Suc n)"
  proof
    fix k assume "k \<in> fst ` set d'"
    then have "k \<in> fst ` set d" unfolding keys by blast
    with assms(1) obtain i where "k = KInt (int i)" "i < max len n"
      unfolding positional_def by blast
    then have "k = KInt (int i) \<and> i < max len (Suc n)" by auto
    then show "\<exists>i. k = KInt (int i) \<and> i < max len (Suc n)" ..
  qed
  moreover have "\<forall>i. Suc n \<le> i \<and> i < len \<longrightarrow> KInt (int i) \<in> fst ` set d'"
    using assms(1) unfolding positional_def keys by auto
  ultimately show ?thesis unfolding positional_def by blast
qed

lemma positional_loop:
  assumes "merged_dict_loop cfg current merged
             (map (\<lambda>(i, v). (KInt (int i), v)) (enumerate n es)) = Inr m"
    and "positional len n merged"
  shows "positional len (n + length es) m"
  using assms
proof (induction es arbitrary: n merged)
  case Nil
  then show ?case by (simp add: merged_dict_loop.simps)
next
  case (Cons e es)
  from Cons.prems(1)
  have "merged_dict_loop cfg current merged
          ((KInt (int n), e) # map (\<lambda>(i, v). (KInt (int i), v)) (enumerate (Suc n) es)) = Inr m"
    by simp
  from loop_step_keys [OF this] obtain merged' where
    m: "merged_dict_loop cfg current merged'
          (map (\<lambda>(i, v). (KInt (int i), v)) (enumerate (Suc n) es)) = Inr m"
    and keys: "map fst merged' = map fst merged
       \<or> KInt (int n) \<notin> fst ` set merged \<and> map fst merged' = map fst merged @ [KInt (int n)]
       \<or> map fst merged' = filter (\<lambda>x. x \<noteq> KInt (int n)) (map fst merged)"
    by blast
  from keys Cons.prems(2) have "positional len (Suc n) merged'"
    by (auto intro: positional_same_keys positional_append positional_remove)
  from Cons.IH [OF m this] show ?case by simp
qed

lemma positional_convert: "positional (length xs) 0 (convert_list_to_dict xs)"
proof -
  have keys: "map fst (convert_list_to_dict xs) = map (\<lambda>i. KInt (int i)) [0 ..< 0 + length xs]"
    unfolding convert_list_to_dict_def by (rule map_fst_enumerate_keys)
  have "map position (map fst (convert_list_to_dict xs)) = map int [0 ..< length xs]"
    unfolding keys by (simp add: position_def comp_def)
  moreover have "sorted_wrt (<) (map int [0 ..< length xs])"
    by (simp add: sorted_wrt_map)
  moreover have "set (map fst (convert_list_to_dict xs)) =
      set (map (\<lambda>i. KInt (int i)) [0 ..< 0 + length xs])"
    by (simp only: keys)
  then have "fst ` set (convert_list_to_dict xs) = (\<lambda>i. KInt (int i)) ` {0 ..< length xs}"
    by simp
  ultimately show ?thesis
    unfolding positional_def by auto
qed

lemma positional_values:
  assumes "positional len n d"
  shows "values_by_ascending_key d = convert_dict_to_list d"
proof -
  from assms have "sorted (map (\<lambda>kv. position (fst kv)) d)"
    unfolding positional_def by (simp add: strict_sorted_imp_sorted comp_def)
  then show ?thesis
    by (simp add: values_by_ascending_key_def convert_dict_to_list_def sort_key_id_if_sorted)
qed

lemma index_diff_by_ascending_key:
  "get_new_merged_list_with_index_diff cfg current expected =
     map_sum id values_by_ascending_key
       (get_new_merged_dict cfg (convert_list_to_dict current) (convert_list_to_dict expected))"
proof (cases "get_new_merged_dict cfg (convert_list_to_dict current) (convert_list_to_dict expected)")
  case (Inl err)
  then show ?thesis by (simp add: get_new_merged_list_with_index_diff.simps)
next
  case (Inr d)
  have "\<exists>len n. positional len n d"
  proof (cases "merge_type cfg = ''identic''")
    case True
    with Inr have "d = convert_list_to_dict expected"
      by (simp add: get_new_merged_dict.simps)
    then show ?thesis using positional_convert by blast
  next
    case False
    with Inr have "merged_dict_loop cfg (convert_list_to_dict current)
        (convert_list_to_dict current)
        (map (\<lambda>(i, v). (KInt (int i), v)) (enumerate 0 expected)) = Inr d"
      by (simp add: get_new_merged_dict.simps convert_list_to_dict_def)
    from positional_loop [OF this positional_convert] show ?thesis by blast
  qed
  then have "values_by_ascending_key d = convert_dict_to_list d"
    using positional_values by blast
  with Inr show ?thesis by (simp add: get_new_merged_list_with_index_diff.simps)
qed

text \<open>
  Claim C3 (sequence merge by index). With \<open>list_diff_type = index\<close>, under
  \<open>present\<close> and under \<open>absent\<close>, the sequence merge is the mapping merge of the two
  positional mappings followed by reading the values in ascending key order, and it fails
  as the mapping merge fails. (The code reads the values in the dictionary's own order,
  which is the ascending one by \<open>positional_loop\<close>.) The two examples of the
  specification evaluate as stated.
\<close>

theorem index_diff_list_merge:
  assumes "merge_type cfg = ''present'' \<or> merge_type cfg = ''absent''"
    and "list_diff_type cfg = ''index''"
  shows "get_new_merged_list cfg current expected =
           map_sum id values_by_ascending_key
             (get_new_merged_dict cfg (convert_list_to_dict current)
                (convert_list_to_dict expected))
       \<and> get_new_merged_list \<lparr>merge_type = ''present'', list_diff_type = ''index''\<rparr>
           [PInt 4, PInt 5, PInt 6] [PNone, PInt 7, PNone] = Inr [PInt 4, PInt 7, PInt 6]
       \<and> get_new_merged_list \<lparr>merge_type = ''absent'', list_diff_type = ''index''\<rparr>
           [PInt 4, PInt 5, PInt 6] [PNone, PInt 7, PInt 6] = Inr [PInt 4, PInt 5]"
proof (intro conjI)
  from assms show "get_new_merged_list cfg current expected =
           map_sum id values_by_ascending_key
             (get_new_merged_dict cfg (convert_list_to_dict current)
                (convert_list_to_dict expected))"
    by (auto simp: get_new_merged_list.simps index_diff_by_ascending_key)
  show "get_new_merged_list \<lparr>merge_type = ''present'', list_diff_type = ''index''\<rparr>
           [PInt 4, PInt 5, PInt 6] [PNone, PInt 7, PNone] = Inr [PInt 4, PInt 7, PInt 6]"
    by (simp add: eval_simps)
  show "get_new_merged_list \<lparr>merge_type = ''absent'', list_diff_type = ''index''\<rparr>
           [PInt 4, PInt 5, PInt 6] [PNone, PInt 7, PInt 6] = Inr [PInt 4, PInt 5]"
    by (simp add: eval_simps)
qed

theorem index_diff_list_merge_witness:
  "map_sum id values_by_ascending_key
     (get_new_merged_dict \<lparr>merge_type = ''present'', list_diff_type = ''index''\<rparr>
        (convert_list_to_dict [PInt 4])
        (convert_list_to_dict [PNone, PNone, PInt 9]))
   = Inr [PInt 4, PInt 9]"
proof -
  let ?cfg = "\<lparr>merge_type = ''present'', list_diff_type = ''index''\<rparr>"
  have "merge_type ?cfg = ''present'' \<or> merge_type ?cfg = ''absent''"
    and "list_diff_type ?cfg = ''index''"
    by simp_all
  from index_diff_list_merge [OF this, of "[PInt 4]" "[PNone, PNone, PInt 9]"]
  have "map_sum id values_by_ascending_key
     (get_new_merged_dict ?cfg (convert_list_to_dict [PInt 4])
        (convert_list_to_dict [PNone, PNone, PInt 9]))
      = get_new_merged_list ?cfg [PInt 4] [PNone, PNone, PInt 9]"
    by simp
  also have "\<dots> = Inr [PInt 4, PInt 9]"
    by (simp add: eval_simps)
  finally show ?thesis .
qed

subsection \<open>Termination and recursion depth\<close>

text \<open>
  The five functions above are total: their definition comes with a proof that every
  recursive call is on a smaller part of \<open>expected\<close> (\<open>weight\<close>). The counted version
  agrees with them as soon as the counter is at least the nesting depth of \<open>expected\<close>.
\<close>

lemma depth_items_enumerate:
  "depth_items (map (\<lambda>(i, v). (KInt (int i), v)) (enumerate n xs)) = depth_list xs"
  by (induction xs arbitrary: n) simp_all

lemma depth_items_convert [simp]: "depth_items (convert_list_to_dict xs) = depth_list xs"
  by (simp add: convert_list_to_dict_def depth_items_enumerate)

lemma container_depth_pos: "is_container v \<Longrightarrow> 0 < depth v"
  by (cases v) simp_all

lemma fuel_enough:
  shows "depth expected \<le> n \<Longrightarrow> 0 < n \<Longrightarrow>
         get_new_merged_data_fuel n cfg current expected =
           Some (get_new_merged_data cfg current expected)"
    and "depth_items e \<le> n \<Longrightarrow>
         get_new_merged_dict_fuel n cfg c e = Some (get_new_merged_dict cfg c e)"
    and "depth_items rest \<le> n \<Longrightarrow>
         merged_dict_loop_fuel n cfg c merged rest = Some (merged_dict_loop cfg c merged rest)"
    and "depth_list el \<le> n \<Longrightarrow>
         get_new_merged_list_fuel n cfg cl el = Some (get_new_merged_list cfg cl el)"
    and "depth_list el \<le> n \<Longrightarrow>
         get_new_merged_list_with_index_diff_fuel n cfg cl el =
           Some (get_new_merged_list_with_index_diff cfg cl el)"
proof (induction cfg current expected and cfg c e and cfg c merged rest
         and cfg cl el and cfg cl el
       arbitrary: n and n and n and n and n
       rule: get_new_merged_data_get_new_merged_dict_merged_dict_loop_get_new_merged_list_get_new_merged_list_with_index_diff.induct)
  case (1 cfg current expected)
  from "1.prems" obtain k where n: "n = Suc k" by (cases n) simp_all
  show ?case
  proof (cases "merge_type cfg = ''identic'' \<or> \<not> isinstance current (type_of expected)")
    case True
    then show ?thesis
      by (auto simp: n get_new_merged_data_fuel.simps get_new_merged_data.simps)
  next
    case False
    then have ni: "merge_type cfg \<noteq> ''identic''" and inst: "isinstance current (type_of expected)"
      by simp_all
    from isinstance_cases [OF inst] consider
      (lists) c e where "current = PList c" "expected = PList e"
      | (dicts) c e where "current = PDict c" "expected = PDict e"
      | (atoms) "\<not> is_container current" "\<not> is_container expected"
      by blast
    then show ?thesis
    proof cases
      case lists
      with "1.prems" n have "depth_list e \<le> k" by simp
      then have "get_new_merged_list_fuel k cfg c e = Some (get_new_merged_list cfg c e)"
        using "1.IH"(1) [of current expected c e k] ni inst lists by simp
      with ni inst lists show ?thesis
        by (simp add: n get_new_merged_data_fuel.simps get_new_merged_data.simps)
    next
      case dicts
      with "1.prems" n have "depth_items e \<le> k" by simp
      then have "get_new_merged_dict_fuel k cfg c e = Some (get_new_merged_dict cfg c e)"
        using "1.IH"(2) [of current expected c e k] ni inst dicts by simp
      with ni inst dicts show ?thesis
        by (simp add: n get_new_merged_data_fuel.simps get_new_merged_data.simps)
    next
      case atoms
      with ni inst show ?thesis
        by (cases current; cases expected)
           (simp_all add: n get_new_merged_data_fuel.simps get_new_merged_data.simps)
    qed
  qed
next
  case (2 cfg current expected)
  then show ?case
    by (cases "merge_type cfg = ''identic''")
       (simp_all add: get_new_merged_dict_fuel.simps get_new_merged_dict.simps)
next
  case (3 cfg current merged)
  show ?case by (simp add: merged_dict_loop_fuel.simps merged_dict_loop.simps)
next
  case (4 cfg current merged key ev rest)
  from "4.prems" have dev: "depth ev \<le> n" and drest: "depth_items rest \<le> n" by simp_all
  show ?case
  proof (cases "is_container ev \<and> is_container (py_get current key)")
    case True
    then have pos: "0 < n" using dev container_depth_pos [of ev] by simp
    show ?thesis
    proof (cases "dict_get merged key")
      case None
      with True show ?thesis
        by (simp add: merged_dict_loop_fuel.simps merged_dict_loop.simps)
    next
      case (Some mv)
      have data: "get_new_merged_data_fuel n cfg mv ev = Some (get_new_merged_data cfg mv ev)"
        using "4.IH"(1) [OF True Some dev pos] .
      show ?thesis
      proof (cases "get_new_merged_data cfg mv ev")
        case (Inl err)
        with True Some data show ?thesis
          by (simp add: merged_dict_loop_fuel.simps merged_dict_loop.simps)
      next
        case (Inr r)
        from "4.IH"(2) [OF True Some Inr drest] True Some data Inr show ?thesis
          by (simp add: merged_dict_loop_fuel.simps merged_dict_loop.simps)
      qed
    qed
  next
    case False
    show ?thesis
    proof (cases "merge_type cfg = ''present''")
      case True
      show ?thesis
      proof (cases "ev = PNone")
        case none: True
        from "4.IH"(3) [OF False True none drest] False True none show ?thesis
          by (auto simp: merged_dict_loop_fuel.simps merged_dict_loop.simps)
      next
        case some: False
        from "4.IH"(4) [OF False True some drest] False True some show ?thesis
          by (auto simp: merged_dict_loop_fuel.simps merged_dict_loop.simps)
      qed
    next
      case np: False
      show ?thesis
      proof (cases "merge_type cfg = ''absent''")
        case ab: True
        show ?thesis
        proof (cases "py_eq (py_get merged key) ev")
          case True
          show ?thesis
          proof (cases "dict_pop merged key")
            case (Inl err)
            with False np ab True show ?thesis
              by (auto simp: merged_dict_loop_fuel.simps merged_dict_loop.simps)
          next
            case (Inr m')
            from "4.IH"(5) [OF False np ab True Inr drest] False np ab True Inr show ?thesis
              by (auto simp: merged_dict_loop_fuel.simps merged_dict_loop.simps)
          qed
        next
          case ne: False
          from "4.IH"(6) [OF False np ab ne drest] False np ab ne show ?thesis
            by (auto simp: merged_dict_loop_fuel.simps merged_dict_loop.simps)
        qed
      next
        case False
        with \<open>\<not> (is_container ev \<and> is_container (py_get current key))\<close> np show ?thesis
          by (auto simp: merged_dict_loop_fuel.simps merged_dict_loop.simps)
      qed
    qed
  qed
next
  case (5 cfg current expected)
  show ?case
  proof (cases "merge_type cfg \<noteq> ''identic'' \<and> list_diff_type cfg \<noteq> ''value''
                  \<and> list_diff_type cfg = ''index''")
    case True
    with "5.IH" [of n] "5.prems" show ?thesis
      by (simp add: get_new_merged_list_fuel.simps get_new_merged_list.simps)
  next
    case False
    then show ?thesis
      by (auto simp: get_new_merged_list_fuel.simps get_new_merged_list.simps)
  qed
next
  case (6 cfg current expected)
  from "6.IH" [of n] "6.prems" show ?case
    by (simp add: get_new_merged_list_with_index_diff_fuel.simps
          get_new_merged_list_with_index_diff.simps)
qed

text \<open>
  Claim C9 (termination). For every configuration and every two operands the merge
  returns (a result or an error), and the nesting of dispatcher activations it needs is at
  most the nesting depth of \<open>expected\<close> (one activation for an atom).
\<close>

theorem merge_terminates_within_depth:
  assumes "depth expected \<le> n" and "0 < n"
  shows "get_new_merged_data_fuel n cfg current expected =
           Some (get_new_merged_data cfg current expected)"
  using assms by (rule fuel_enough(1))

theorem merge_terminates_within_depth_witness:
  "get_new_merged_data_fuel 2 \<lparr>merge_type = ''present'', list_diff_type = ''index''\<rparr>
     (PDict [(KStr ''B'', PList [PInt 2, PInt 3])])
     (PDict [(KStr ''B'', PList [PNone, PInt 8])])
   = Some (Inr (PDict [(KStr ''B'', PList [PInt 2, PInt 8])]))"
proof -
  let ?cfg = "\<lparr>merge_type = ''present'', list_diff_type = ''index''\<rparr>"
  let ?cur = "PDict [(KStr ''B'', PList [PInt 2, PInt 3])]"
  let ?exp = "PDict [(KStr ''B'', PList [PNone, PInt 8])]"
  have "depth ?exp \<le> 2" and "0 < (2::nat)" by simp_all
  from merge_terminates_within_depth [OF this, of ?cfg ?cur]
  have "get_new_merged_data_fuel 2 ?cfg ?cur ?exp = Some (get_new_merged_data ?cfg ?cur ?exp)" .
  also have "get_new_merged_data ?cfg ?cur ?exp
      = Inr (PDict [(KStr ''B'', PList [PInt 2, PInt 8])])"
    by (simp add: eval_simps)
  finally show ?thesis .
qed

text \<open>The bound is reached: a list inside a dictionary needs two nested activations.\<close>

lemma depth_bound_reached:
  "get_new_merged_data_fuel 1 \<lparr>merge_type = ''present'', list_diff_type = ''index''\<rparr>
     (PDict [(KStr ''B'', PList [PInt 2, PInt 3])])
     (PDict [(KStr ''B'', PList [PNone, PInt 8])]) = None"
  by (simp add: get_new_merged_data_fuel.simps get_new_merged_dict_fuel.simps
        merged_dict_loop_fuel.simps isinstance_def py_get_def dict_get_def)

subsection \<open>What a merge leaves of the store\<close>

text \<open>
  Every object that exists when a merge is called is unchanged when the merge returns or
  raises (\<open>merge_keeps_heap\<close>): the only objects that the loop of \<open>get_new_merged_dict\<close>
  changes are the copies \<open>merged\<close>, which the call has created.
\<close>

lemma kept_refl [simp]: "kept h h"
  by (simp add: kept_def)

lemma kept_trans: "kept h1 h2 \<Longrightarrow> kept h2 h3 \<Longrightarrow> kept h1 h3"
  by (auto simp: kept_def)

lemma kept_append [simp]: "kept h (h @ xs)"
  by (simp add: kept_def nth_append)

lemma kept_but_refl [simp]: "kept_but m h h"
  by (simp add: kept_but_def)

lemma kept_but_trans: "kept_but m h1 h2 \<Longrightarrow> kept_but m h2 h3 \<Longrightarrow> kept_but m h1 h3"
  by (auto simp: kept_but_def)

lemma kept_imp_kept_but: "kept h h' \<Longrightarrow> kept_but m h h'"
  by (simp add: kept_def kept_but_def)

lemma kept_but_update [simp]: "kept_but m h (h[m := x])"
  by (simp add: kept_but_def)

lemma kept_kept_but: "kept h h1 \<Longrightarrow> length h \<le> m \<Longrightarrow> kept_but m h1 h2 \<Longrightarrow> kept h h2"
  by (auto simp: kept_def kept_but_def)

lemma alloc_kept:
  "kept h (snd (alloc_tree h t))"
  "kept h (snd (alloc_list h ts))"
  "kept h (snd (alloc_items h d))"
proof (induction h t and h ts and h d rule: alloc_tree_alloc_list_alloc_items.induct)
  case (6 h ts)
  then show ?case
    by (auto split: prod.splits intro: kept_trans [OF _ kept_append])
next
  case (7 h d)
  then show ?case
    by (auto split: prod.splits intro: kept_trans [OF _ kept_append])
next
  case (9 h t ts)
  then show ?case
    by (auto split: prod.splits intro: kept_trans)
next
  case (11 h k t d)
  then show ?case
    by (auto split: prod.splits intro: kept_trans)
qed simp_all

lemma alloc_tree_kept: "alloc_tree h t = (v, h') \<Longrightarrow> kept h h'"
  using alloc_kept(1) [of h t] by simp

lemma alloc_list_kept: "alloc_list h ts = (vs, h') \<Longrightarrow> kept h h'"
  using alloc_kept(2) [of h ts] by simp

lemma alloc_items_kept: "alloc_items h d = (kvs, h') \<Longrightarrow> kept h h'"
  using alloc_kept(3) [of h d] by simp

lemma alloc_tree_ref_fresh:
  "alloc_tree h t = (HRef m, h') \<Longrightarrow> length h \<le> m \<and> m < length h'"
  by (cases t)
     (auto split: prod.splits dest!: alloc_list_kept alloc_items_kept simp: kept_def)

lemma deepcopy_kept: "kept h (snd (deepcopy_h n h v))"
  by (auto simp: deepcopy_h_def split: option.splits prod.splits dest: alloc_tree_kept)

lemma deepcopy_ref_fresh:
  "deepcopy_h n h v = (Inr (HRef m), h') \<Longrightarrow> length h \<le> m \<and> m < length h'"
  by (auto simp: deepcopy_h_def split: option.splits prod.splits dest: alloc_tree_ref_fresh)

lemma setitem_kept_but: "setitem_h h m key v = Inr h' \<Longrightarrow> kept_but m h h' \<and> length h' = length h"
  by (auto simp: setitem_h_def split: option.splits)

lemma pop_kept_but: "pop_h h m key = Inr h' \<Longrightarrow> kept_but m h h' \<and> length h' = length h"
  by (auto simp: pop_h_def split: option.splits sum.splits)

lemma value_diff_kept:
  "kept h (snd (get_new_merged_list_with_value_diff_h n cfg h c e))"
  by (auto simp: get_new_merged_list_with_value_diff_h_def split: option.splits)

lemma merge_keeps_heap:
  "kept h (snd (get_new_merged_data_h n cfg h current expected))"
  "kept h (snd (get_new_merged_dict_h n cfg h c e))"
  "m < length h \<Longrightarrow> kept_but m h (snd (merged_dict_loop_h n cfg h c e m keys))"
  "kept h (snd (get_new_merged_list_h n cfg h c e))"
  "kept h (snd (get_new_merged_list_with_index_diff_h n cfg h c e))"
proof (induction n cfg h current expected and n cfg h c e and n cfg h c e m keys
         and n cfg h c e and n cfg h c e
       rule: get_new_merged_data_h_get_new_merged_dict_h_merged_dict_loop_h_get_new_merged_list_h_get_new_merged_list_with_index_diff_h.induct)
  case (1 cfg h current expected)
  show ?case by (simp add: get_new_merged_data_h.simps)
next
  case (2 n cfg h current expected)
  then show ?case
    by (auto simp: get_new_merged_data_h.simps deepcopy_kept split: hval.splits)
next
  case (3 n cfg h current expected)
  show ?case
  proof (cases "merge_type cfg = ''identic''")
    case True
    then show ?thesis by (simp add: get_new_merged_dict_h.simps deepcopy_kept)
  next
    case False
    obtain out h1 where dc: "deepcopy_h n h (HRef current) = (out, h1)"
      by (cases "deepcopy_h n h (HRef current)")
    with deepcopy_kept [of h n "HRef current"] have k1: "kept h h1" by simp
    show ?thesis
    proof (cases out)
      case (Inl err)
      with False dc k1 show ?thesis by (simp add: get_new_merged_dict_h.simps)
    next
      case (Inr v)
      show ?thesis
      proof (cases v)
        case (HRef merged)
        with dc Inr have fresh: "length h \<le> merged" "merged < length h1"
          using deepcopy_ref_fresh by blast+
        show ?thesis
        proof (cases "dict_at h1 expected")
          case None
          with False dc Inr HRef k1 show ?thesis by (simp add: get_new_merged_dict_h.simps)
        next
          case (Some eitems)
          have "kept_but merged h1
             (snd (merged_dict_loop_h n cfg h1 current expected merged (map fst eitems)))"
            using "3.IH" [OF False dc [symmetric] Inr HRef Some fresh(2)] .
          with k1 fresh(1) have "kept h
             (snd (merged_dict_loop_h n cfg h1 current expected merged (map fst eitems)))"
            by (rule kept_kept_but)
          with False dc Inr HRef Some show ?thesis
            by (auto simp: get_new_merged_dict_h.simps split: prod.splits sum.splits)
        qed
      qed (use False dc Inr k1 in \<open>simp_all add: get_new_merged_dict_h.simps\<close>)
    qed
  qed
next
  case (4 n cfg h current expected merged)
  show ?case by (simp add: merged_dict_loop_h.simps)
next
  case (5 n cfg h current expected merged key keys)
  show ?case
  proof (cases "loop_body_reads n cfg h current expected merged key")
    case (Inl err)
    then show ?thesis by (simp add: merged_dict_loop_h.simps)
  next
    case (Inr act)
    show ?thesis
    proof (cases act)
      case (Recurse mv ev)
      obtain out h1 where run: "get_new_merged_data_h n cfg h mv ev = (out, h1)"
        by (cases "get_new_merged_data_h n cfg h mv ev")
      from "5.IH"(1) [OF Inr Recurse] run have k1: "kept h h1" by simp
      then have len1: "merged < length h1" using "5.prems" by (simp add: kept_def)
      show ?thesis
      proof (cases out)
        case (Inl err)
        with Inr Recurse run k1 show ?thesis
          by (simp add: merged_dict_loop_h.simps kept_imp_kept_but)
      next
        case r: (Inr r)
        show ?thesis
        proof (cases "setitem_h h1 merged key r")
          case (Inl err)
          with Inr Recurse run r k1 show ?thesis
            by (simp add: merged_dict_loop_h.simps kept_imp_kept_but)
        next
          case h2: (Inr h2)
          from setitem_kept_but [OF h2] have k2: "kept_but merged h1 h2" and "length h2 = length h1"
            by simp_all
          with len1 have "merged < length h2" by simp
          from "5.IH"(2) [OF Inr Recurse run [symmetric] r h2 this]
          have "kept_but merged h2 (snd (merged_dict_loop_h n cfg h2 current expected merged keys))" .
          with kept_imp_kept_but [OF k1] k2
          have "kept_but merged h (snd (merged_dict_loop_h n cfg h2 current expected merged keys))"
            by (blast intro: kept_but_trans)
          with Inr Recurse run r h2 show ?thesis
            by (simp add: merged_dict_loop_h.simps)
        qed
      qed
    next
      case (Store ev)
      show ?thesis
      proof (cases "setitem_h h merged key ev")
        case (Inl err)
        with Inr Store show ?thesis by (simp add: merged_dict_loop_h.simps)
      next
        case h1: (Inr h1)
        from setitem_kept_but [OF h1] have k1: "kept_but merged h h1" and "length h1 = length h"
          by simp_all
        with "5.prems" have "merged < length h1" by simp
        from "5.IH"(3) [OF Inr Store h1 this] k1
        have "kept_but merged h (snd (merged_dict_loop_h n cfg h1 current expected merged keys))"
          by (blast intro: kept_but_trans)
        with Inr Store h1 show ?thesis by (simp add: merged_dict_loop_h.simps)
      qed
    next
      case Skip
      from "5.IH"(4) [OF Inr Skip "5.prems"] Inr Skip show ?thesis
        by (simp add: merged_dict_loop_h.simps)
    next
      case Pop
      show ?thesis
      proof (cases "pop_h h merged key")
        case (Inl err)
        with Inr Pop show ?thesis by (simp add: merged_dict_loop_h.simps)
      next
        case h1: (Inr h1)
        from pop_kept_but [OF h1] have k1: "kept_but merged h h1" and "length h1 = length h"
          by simp_all
        with "5.prems" have "merged < length h1" by simp
        from "5.IH"(5) [OF Inr Pop h1 this] k1
        have "kept_but merged h (snd (merged_dict_loop_h n cfg h1 current expected merged keys))"
          by (blast intro: kept_but_trans)
        with Inr Pop h1 show ?thesis by (simp add: merged_dict_loop_h.simps)
      qed
    qed
  qed
next
  case (6 n cfg h current expected)
  then show ?case
    by (auto simp: get_new_merged_list_h.simps deepcopy_kept value_diff_kept)
next
  case (7 n cfg h current expected)
  show ?case
  proof (cases "list_at h current")
    case None
    then show ?thesis by (simp add: get_new_merged_list_with_index_diff_h.simps)
  next
    case cs: (Some cs)
    show ?thesis
    proof (cases "list_at h expected")
      case None
      with cs show ?thesis by (simp add: get_new_merged_list_with_index_diff_h.simps)
    next
      case es: (Some es)
      let ?h0 = "h @ [HDict (convert_list_to_dict cs), HDict (convert_list_to_dict es)]"
      from "7.IH" [OF refl cs es]
      have "kept ?h0 (snd (get_new_merged_dict_h n cfg ?h0 (length h) (Suc (length h))))" .
      then have k: "kept h (snd (get_new_merged_dict_h n cfg ?h0 (length h) (Suc (length h))))"
        by (rule kept_trans [OF kept_append])
      obtain out h1 where run: "get_new_merged_dict_h n cfg ?h0 (length h) (Suc (length h)) = (out, h1)"
        by (cases "get_new_merged_dict_h n cfg ?h0 (length h) (Suc (length h))")
      with k have "kept h h1" by simp
      then have "kept h (h1 @ xs)" for xs
        by (rule kept_trans) simp
      with \<open>kept h h1\<close> cs es run show ?thesis
        by (auto simp: get_new_merged_list_with_index_diff_h.simps
              split: sum.splits hval.splits option.splits)
    qed
  qed
qed

subsection \<open>Reading a value off the store\<close>

lemma reads_PList_iff:
  "reads X h v (PList ts) \<longleftrightarrow>
     (\<exists>a xs. v = HRef a \<and> a \<notin> X \<and> list_at h a = Some xs \<and> reads_list X h xs ts)"
  by (auto simp: list_at_def split: hval.splits option.splits hobj.splits)

lemma reads_PDict_iff:
  "reads X h v (PDict d) \<longleftrightarrow>
     (\<exists>a kvs. v = HRef a \<and> a \<notin> X \<and> dict_at h a = Some kvs \<and> reads_items X h kvs d)"
  by (auto simp: dict_at_def split: hval.splits option.splits hobj.splits)

lemma reads_list_Cons_iff:
  "reads_list X h vs (t # ts) \<longleftrightarrow> (\<exists>x xs. vs = x # xs \<and> reads X h x t \<and> reads_list X h xs ts)"
  by (cases vs) simp_all

lemma reads_items_Cons_iff:
  "reads_items X h kvs ((k, t) # d) \<longleftrightarrow>
     (\<exists>v kvs'. kvs = (k, v) # kvs' \<and> reads X h v t \<and> reads_items X h kvs' d)"
  by (cases kvs) auto

declare reads.simps(6,7) [simp del]
declare reads_list.simps(2) [simp del]
declare reads_items.simps(2) [simp del]

lemmas reads_iffs = reads_PList_iff reads_PDict_iff reads_list_Cons_iff reads_items_Cons_iff

lemma list_at_frame:
  "list_at h a = Some xs \<Longrightarrow> length h \<le> length h' \<Longrightarrow> h' ! a = h ! a \<Longrightarrow> list_at h' a = Some xs"
  by (auto simp: list_at_def obj_at_def split: if_splits option.splits hobj.splits)

lemma dict_at_frame:
  "dict_at h a = Some kvs \<Longrightarrow> length h \<le> length h' \<Longrightarrow> h' ! a = h ! a \<Longrightarrow> dict_at h' a = Some kvs"
  by (auto simp: dict_at_def obj_at_def split: if_splits option.splits hobj.splits)

lemma list_at_less: "list_at h a = Some xs \<Longrightarrow> a < length h"
  by (auto simp: list_at_def obj_at_def split: if_splits)

lemma dict_at_less: "dict_at h a = Some kvs \<Longrightarrow> a < length h"
  by (auto simp: dict_at_def obj_at_def split: if_splits)

lemma reads_frame:
  "reads X h v t \<Longrightarrow> length h \<le> length h' \<Longrightarrow>
     (\<forall>a < length h. a \<notin> X \<longrightarrow> h' ! a = h ! a) \<Longrightarrow> reads X h' v t"
  "reads_list X h vs ts \<Longrightarrow> length h \<le> length h' \<Longrightarrow>
     (\<forall>a < length h. a \<notin> X \<longrightarrow> h' ! a = h ! a) \<Longrightarrow> reads_list X h' vs ts"
  "reads_items X h kvs d \<Longrightarrow> length h \<le> length h' \<Longrightarrow>
     (\<forall>a < length h. a \<notin> X \<longrightarrow> h' ! a = h ! a) \<Longrightarrow> reads_items X h' kvs d"
proof (induction t and ts and d arbitrary: v and vs and kvs
       rule: wf_val_wf_list_wf_items.induct)
  case (1 ts)
  from "1.prems"(1) obtain a xs where v: "v = HRef a" "a \<notin> X"
    and at: "list_at h a = Some xs" and xs: "reads_list X h xs ts"
    by (auto simp: reads_iffs)
  from at "1.prems"(2,3) v have "list_at h' a = Some xs"
    by (auto intro: list_at_frame dest: list_at_less)
  moreover have "reads_list X h' xs ts"
    using "1.IH" xs "1.prems"(2,3) by blast
  ultimately show ?case using v by (auto simp: reads_iffs)
next
  case (2 d)
  from "2.prems"(1) obtain a kvs where v: "v = HRef a" "a \<notin> X"
    and at: "dict_at h a = Some kvs" and kvs: "reads_items X h kvs d"
    by (auto simp: reads_iffs)
  from at "2.prems"(2,3) v have "dict_at h' a = Some kvs"
    by (auto intro: dict_at_frame dest: dict_at_less)
  moreover have "reads_items X h' kvs d"
    using "2.IH" kvs "2.prems"(2,3) by blast
  ultimately show ?case using v by (auto simp: reads_iffs)
next
  case (5 x xs)
  then show ?case by (auto simp: reads_iffs)
next
  case (7 k v d)
  then show ?case by (auto simp: reads_iffs)
qed simp_all

lemma reads_kept:
  assumes "kept h h'"
  shows "reads X h v t \<Longrightarrow> reads X h' v t"
    and "reads_list X h vs ts \<Longrightarrow> reads_list X h' vs ts"
    and "reads_items X h kvs d \<Longrightarrow> reads_items X h' kvs d"
  using assms by (auto simp: kept_def elim: reads_frame)

lemma reads_kept_but:
  assumes "kept_but m h h'" and "m \<in> X"
  shows "reads X h v t \<Longrightarrow> reads X h' v t"
    and "reads_list X h vs ts \<Longrightarrow> reads_list X h' vs ts"
    and "reads_items X h kvs d \<Longrightarrow> reads_items X h' kvs d"
proof -
  from assms have len: "length h \<le> length h'"
    and same: "\<forall>a < length h. a \<notin> X \<longrightarrow> h' ! a = h ! a"
    by (auto simp: kept_but_def)
  show "reads X h v t \<Longrightarrow> reads X h' v t"
    by (rule reads_frame(1) [OF _ len same])
  show "reads_list X h vs ts \<Longrightarrow> reads_list X h' vs ts"
    by (rule reads_frame(2) [OF _ len same])
  show "reads_items X h kvs d \<Longrightarrow> reads_items X h' kvs d"
    by (rule reads_frame(3) [OF _ len same])
qed

lemma reads_avoid:
  "reads X h v t \<Longrightarrow> (\<forall>a \<in> Y. a \<in> X \<or> length h \<le> a) \<Longrightarrow> reads Y h v t"
  "reads_list X h vs ts \<Longrightarrow> (\<forall>a \<in> Y. a \<in> X \<or> length h \<le> a) \<Longrightarrow> reads_list Y h vs ts"
  "reads_items X h kvs d \<Longrightarrow> (\<forall>a \<in> Y. a \<in> X \<or> length h \<le> a) \<Longrightarrow> reads_items Y h kvs d"
proof (induction t and ts and d arbitrary: v and vs and kvs
       rule: wf_val_wf_list_wf_items.induct)
  case (1 ts)
  from "1.prems"(1) obtain a xs where v: "v = HRef a" "a \<notin> X"
    and at: "list_at h a = Some xs" and xs: "reads_list X h xs ts"
    by (auto simp: reads_iffs)
  from at have "a < length h" by (rule list_at_less)
  with v "1.prems"(2) have "a \<notin> Y" by auto
  moreover have "reads_list Y h xs ts" using "1.IH" xs "1.prems"(2) by blast
  ultimately show ?case using v at by (auto simp: reads_iffs)
next
  case (2 d)
  from "2.prems"(1) obtain a kvs where v: "v = HRef a" "a \<notin> X"
    and at: "dict_at h a = Some kvs" and kvs: "reads_items X h kvs d"
    by (auto simp: reads_iffs)
  from at have "a < length h" by (rule dict_at_less)
  with v "2.prems"(2) have "a \<notin> Y" by auto
  moreover have "reads_items Y h kvs d" using "2.IH" kvs "2.prems"(2) by blast
  ultimately show ?case using v at by (auto simp: reads_iffs)
next
  case (5 x xs)
  then show ?case by (auto simp: reads_iffs)
next
  case (7 k v d)
  then show ?case by (auto simp: reads_iffs)
qed simp_all

lemma reads_mono:
  assumes "Y \<subseteq> X"
  shows "reads X h v t \<Longrightarrow> reads Y h v t"
    and "reads_list X h vs ts \<Longrightarrow> reads_list Y h vs ts"
    and "reads_items X h kvs d \<Longrightarrow> reads_items Y h kvs d"
  using assms by (auto elim: reads_avoid)

lemma dict_at_obj: "dict_at h a = Some kvs \<longleftrightarrow> obj_at h a = Some (HDict kvs)"
  by (auto simp: dict_at_def split: option.splits hobj.splits)

lemma list_at_obj: "list_at h a = Some xs \<longleftrightarrow> obj_at h a = Some (HList xs)"
  by (auto simp: list_at_def split: option.splits hobj.splits)

lemma reads_tree_of:
  "reads X h v t \<Longrightarrow> depth t \<le> n \<Longrightarrow> tree_of n h v = Some t"
  "reads_list X h vs ts \<Longrightarrow> depth_list ts \<le> n \<Longrightarrow> trees_of n h vs = Some ts"
  "reads_items X h kvs d \<Longrightarrow> depth_items d \<le> n \<Longrightarrow> items_of n h kvs = Some d"
proof (induction t and ts and d arbitrary: v n and vs n and kvs n
       rule: wf_val_wf_list_wf_items.induct)
  case (1 ts)
  from "1.prems"(1) obtain a xs where v: "v = HRef a"
    and at: "list_at h a = Some xs" and xs: "reads_list X h xs ts"
    by (auto simp: reads_iffs)
  from "1.prems"(2) obtain k where n: "n = Suc k" and "depth_list ts \<le> k"
    by (cases n) simp_all
  with "1.IH" xs have "trees_of k h xs = Some ts" by blast
  with v at n show ?case by (simp add: list_at_obj)
next
  case (2 d)
  from "2.prems"(1) obtain a kvs where v: "v = HRef a"
    and at: "dict_at h a = Some kvs" and kvs: "reads_items X h kvs d"
    by (auto simp: reads_iffs)
  from "2.prems"(2) obtain k where n: "n = Suc k" and "depth_items d \<le> k"
    by (cases n) simp_all
  with "2.IH" kvs have "items_of k h kvs = Some d" by blast
  with v at n show ?case by (simp add: dict_at_obj)
next
  case (5 x xs)
  then show ?case by (auto simp: reads_iffs)
next
  case (7 k v d)
  then show ?case by (auto simp: reads_iffs)
qed simp_all

lemma alloc_reads:
  "alloc_tree h t = (v, h') \<Longrightarrow> (\<forall>a \<in> Y. a < length h \<or> length h' \<le> a) \<Longrightarrow> reads Y h' v t"
  "alloc_list h ts = (vs, h') \<Longrightarrow> (\<forall>a \<in> Y. a < length h \<or> length h' \<le> a) \<Longrightarrow>
     reads_list Y h' vs ts"
  "alloc_items h d = (kvs, h') \<Longrightarrow> (\<forall>a \<in> Y. a < length h \<or> length h' \<le> a) \<Longrightarrow>
     reads_items Y h' kvs d"
proof (induction h t and h ts and h d arbitrary: v h' and vs h' and kvs h'
       rule: alloc_tree_alloc_list_alloc_items.induct)
  case (6 h ts)
  from "6.prems"(1) obtain xs h1 where al: "alloc_list h ts = (xs, h1)"
    and v: "v = HRef (length h1)" and h': "h' = h1 @ [HList xs]"
    by (auto split: prod.splits)
  from alloc_list_kept [OF al] have len: "length h \<le> length h1" by (simp add: kept_def)
  have avoid: "\<forall>a \<in> Y. a < length h \<or> length h1 \<le> a"
    using "6.prems"(2) h' by auto
  from "6.IH" [OF al avoid] have "reads_list Y h1 xs ts" .
  then have "reads_list Y h' xs ts"
    unfolding h' by (rule reads_kept(2) [OF kept_append])
  moreover have "length h1 \<notin> Y" using "6.prems"(2) h' len by auto
  moreover have "list_at h' (length h1) = Some xs"
    by (simp add: h' list_at_def obj_at_def)
  ultimately show ?case using v by (auto simp: reads_iffs)
next
  case (7 h d)
  from "7.prems"(1) obtain xs h1 where al: "alloc_items h d = (xs, h1)"
    and v: "v = HRef (length h1)" and h': "h' = h1 @ [HDict xs]"
    by (auto split: prod.splits)
  from alloc_items_kept [OF al] have len: "length h \<le> length h1" by (simp add: kept_def)
  have avoid: "\<forall>a \<in> Y. a < length h \<or> length h1 \<le> a"
    using "7.prems"(2) h' by auto
  from "7.IH" [OF al avoid] have "reads_items Y h1 xs d" .
  then have "reads_items Y h' xs d"
    unfolding h' by (rule reads_kept(3) [OF kept_append])
  moreover have "length h1 \<notin> Y" using "7.prems"(2) h' len by auto
  moreover have "dict_at h' (length h1) = Some xs"
    by (simp add: h' dict_at_def obj_at_def)
  ultimately show ?case using v by (auto simp: reads_iffs)
next
  case (9 h t ts)
  from "9.prems"(1) obtain x h1 xs where at: "alloc_tree h t = (x, h1)"
    and al: "alloc_list h1 ts = (xs, h')" and vs: "vs = x # xs"
    by (auto split: prod.splits)
  from alloc_tree_kept [OF at] have k1: "length h \<le> length h1" by (simp add: kept_def)
  from alloc_list_kept [OF al] have k2: "kept h1 h'" .
  then have l2: "length h1 \<le> length h'" by (simp add: kept_def)
  have "reads Y h1 x t"
    using "9.IH"(1) [OF at] "9.prems"(2) l2 by fastforce
  then have "reads Y h' x t" by (rule reads_kept(1) [OF k2])
  moreover have "reads_list Y h' xs ts"
    using "9.IH"(2) [OF at [symmetric] al] "9.prems"(2) k1 by fastforce
  ultimately show ?case using vs by (auto simp: reads_iffs)
next
  case (11 h k t d)
  from "11.prems"(1) obtain x h1 xs where at: "alloc_tree h t = (x, h1)"
    and al: "alloc_items h1 d = (xs, h')" and kvs: "kvs = (k, x) # xs"
    by (auto split: prod.splits)
  from alloc_tree_kept [OF at] have k1: "length h \<le> length h1" by (simp add: kept_def)
  from alloc_items_kept [OF al] have k2: "kept h1 h'" .
  then have l2: "length h1 \<le> length h'" by (simp add: kept_def)
  have "reads Y h1 x t"
    using "11.IH"(1) [OF at] "11.prems"(2) l2 by fastforce
  then have "reads Y h' x t" by (rule reads_kept(1) [OF k2])
  moreover have "reads_items Y h' xs d"
    using "11.IH"(2) [OF at [symmetric] al] "11.prems"(2) k1 by fastforce
  ultimately show ?case using kvs by (auto simp: reads_iffs)
qed auto

lemma reads_type_of: "reads X h v t \<Longrightarrow> type_of_h h v = type_of t"
  by (cases t) (auto simp: reads_iffs list_at_obj dict_at_obj)

lemma reads_is_container: "reads X h v t \<Longrightarrow> is_container_h h v = is_container t"
  by (cases t) (auto simp: is_container_h_def dest: reads_type_of)

lemma reads_isinstance:
  "reads X h v t \<Longrightarrow> reads X h w u \<Longrightarrow>
     isinstance_h h v (type_of_h h w) = isinstance t (type_of u)"
  by (simp add: isinstance_h_def isinstance_def reads_type_of)

lemma reads_HNone: "reads X h v t \<Longrightarrow> v = HNone \<longleftrightarrow> t = PNone"
  by (cases t) (auto simp: reads_iffs)

lemma reads_items_keys: "reads_items X h kvs d \<Longrightarrow> map fst kvs = map fst d"
  by (induction d arbitrary: kvs) (auto simp: reads_iffs)

lemma reads_items_get:
  "reads_items X h kvs d \<Longrightarrow>
     (case dict_get d k of
        None \<Rightarrow> dict_get kvs k = None
      | Some t \<Rightarrow> (\<exists>v. dict_get kvs k = Some v \<and> reads X h v t))"
  by (induction d arbitrary: kvs) (auto simp: reads_iffs dict_get_def split: option.splits)

lemma reads_items_get_None:
  "reads_items X h kvs d \<Longrightarrow> dict_get d k = None \<Longrightarrow> dict_get kvs k = None"
  using reads_items_get [of X h kvs d k] by simp

lemma reads_items_get_Some:
  "reads_items X h kvs d \<Longrightarrow> dict_get d k = Some t \<Longrightarrow>
     \<exists>v. dict_get kvs k = Some v \<and> reads X h v t"
  using reads_items_get [of X h kvs d k] by simp

lemma reads_items_set:
  "reads_items X h kvs d \<Longrightarrow> reads X h v t \<Longrightarrow>
     reads_items X h (dict_set kvs k v) (dict_set d k t)"
  by (induction d arbitrary: kvs) (auto simp: reads_iffs)

lemma reads_items_filter:
  "reads_items X h kvs d \<Longrightarrow>
     reads_items X h (filter (\<lambda>kv. fst kv \<noteq> k) kvs) (filter (\<lambda>kv. fst kv \<noteq> k) d)"
  by (induction d arbitrary: kvs) (auto simp: reads_iffs)

lemma reads_items_pop:
  assumes "reads_items X h kvs d"
  shows "case dict_pop d k of
           Inl err \<Rightarrow> dict_pop kvs k = Inl err
         | Inr d' \<Rightarrow> (\<exists>kvs'. dict_pop kvs k = Inr kvs' \<and> reads_items X h kvs' d')"
  using reads_items_get [OF assms, of k] reads_items_filter [OF assms, of k]
  by (auto simp: dict_pop_def split: option.splits)

lemma reads_items_enumerate:
  "reads_list X h vs ts \<Longrightarrow>
     reads_items X h (map (\<lambda>(i, v). (KInt (int i), v)) (enumerate n vs))
       (map (\<lambda>(i, v). (KInt (int i), v)) (enumerate n ts))"
  by (induction ts arbitrary: vs n) (auto simp: reads_iffs)

lemma reads_items_convert:
  "reads_list X h vs ts \<Longrightarrow>
     reads_items X h (convert_list_to_dict vs) (convert_list_to_dict ts)"
  by (simp add: convert_list_to_dict_def reads_items_enumerate)

lemma reads_list_convert:
  "reads_items X h kvs d \<Longrightarrow>
     reads_list X h (convert_dict_to_list kvs) (convert_dict_to_list d)"
  by (induction d arbitrary: kvs) (auto simp: reads_iffs convert_dict_to_list_def)

lemma reads_list_append:
  "reads_list X h vs ts \<Longrightarrow> reads_list X h ws us \<Longrightarrow> reads_list X h (vs @ ws) (ts @ us)"
  by (induction ts arbitrary: vs) (auto simp: reads_iffs)

lemma reads_list_filter:
  "reads_list X h vs ts \<Longrightarrow>
     reads_list X h (map fst (filter (\<lambda>(v, t). P t) (zip vs ts))) (filter P ts)"
  by (induction ts arbitrary: vs) (auto simp: reads_iffs)

lemma depth_dict_get: "dict_get d k = Some t \<Longrightarrow> depth t \<le> depth_items d"
  by (induction d) (auto simp: dict_get_def split: if_splits)

lemma depth_py_get: "depth (py_get d k) \<le> depth_items d"
  by (cases "dict_get d k") (simp_all add: py_get_def depth_dict_get)

subsection \<open>The merge on the store computes the merge on values\<close>

text \<open>
  For operands that stand for the values \<open>tc\<close> and \<open>te\<close>, nested less deep than the room
  \<open>n\<close>, the merge on the store raises what the merge on values raises, or returns a
  reference that stands for the result of the merge on values (\<open>merge_sim\<close>). For the loop
  the invariant is that the dictionary at \<open>merged\<close> stands for the local variable
  \<open>merged\<close> of the loop on values, that the operands do not reach the address \<open>merged\<close>,
  and that \<open>merged\<close> still has the binding of \<open>current\<close> at every key not yet visited.
\<close>

lemma sim_Inl [simp]: "sim X r (Inl err) \<longleftrightarrow> fst r = Inl err"
  by (auto simp: sim_def split: sum.splits)

lemma sim_Inr [simp]: "sim X r (Inr t) \<longleftrightarrow> (\<exists>v. fst r = Inr v \<and> reads X (snd r) v t)"
  by (auto simp: sim_def split: sum.splits)

lemma reads_items_py_get:
  "reads_items X h kvs d \<Longrightarrow>
     reads X h (case dict_get kvs k of None \<Rightarrow> HNone | Some v \<Rightarrow> v) (py_get d k)"
  using reads_items_get [of X h kvs d k]
  by (auto simp: py_get_def split: option.splits)

lemma deepcopy_reads:
  assumes "reads X h v t" and "depth t \<le> n" and "X \<subseteq> {..<length h}"
  shows "sim X (deepcopy_h n h v) (Inr t)"
proof -
  from assms(1,2) have t: "tree_of n h v = Some t" by (rule reads_tree_of(1))
  obtain v' h' where al: "alloc_tree h t = (v', h')" by (cases "alloc_tree h t")
  from assms(3) have "\<forall>a \<in> X. a < length h \<or> length h' \<le> a" by auto
  with al have "reads X h' v' t" by (rule alloc_reads(1))
  with t al show ?thesis by (simp add: deepcopy_h_def)
qed

lemma deepcopy_dict_reads:
  assumes "reads X h (HRef c) (PDict d)" and "depth_items d < n" and "X \<subseteq> {..<length h}"
  shows "\<exists>m h1 mkvs. deepcopy_h n h (HRef c) = (Inr (HRef m), h1) \<and> length h \<le> m
           \<and> m < length h1 \<and> kept h h1 \<and> dict_at h1 m = Some mkvs
           \<and> reads_items (insert m X) h1 mkvs d"
proof -
  from assms(2) have "depth (PDict d) \<le> n" by simp
  with assms(1) have t: "tree_of n h (HRef c) = Some (PDict d)" by (rule reads_tree_of(1))
  obtain kvs h' where al: "alloc_items h d = (kvs, h')" by (cases "alloc_items h d")
  from alloc_items_kept [OF al] have k: "kept h h'" .
  then have len: "length h \<le> length h'" by (simp add: kept_def)
  from assms(3) have "\<forall>a \<in> insert (length h') X. a < length h \<or> length h' \<le> a" by auto
  with al have "reads_items (insert (length h') X) h' kvs d" by (rule alloc_reads(3))
  then have "reads_items (insert (length h') X) (h' @ [HDict kvs]) kvs d"
    by (rule reads_kept(3) [OF kept_append])
  moreover have "dict_at (h' @ [HDict kvs]) (length h') = Some kvs"
    by (simp add: dict_at_def obj_at_def)
  moreover have "kept h (h' @ [HDict kvs])" using k kept_append by (rule kept_trans)
  moreover have "deepcopy_h n h (HRef c) = (Inr (HRef (length h')), h' @ [HDict kvs])"
    using t al by (simp add: deepcopy_h_def)
  ultimately show ?thesis using len by auto
qed

lemma dict_get_append_distinct:
  "distinct (map fst (pre @ (k, v) # rest)) \<Longrightarrow> dict_get (pre @ (k, v) # rest) k = Some v"
  by (rule dict_get_distinct) simp_all

lemma loop_body_reads_sim:
  assumes ca: "dict_at h ca = Some ckvs" "reads_items Y h ckvs c"
    and ea: "dict_at h ea = Some ekvs" "reads_items Y h ekvs e"
    and ma: "dict_at h m = Some mkvs" "reads_items Y h mkvs mp"
    and ev: "dict_get e key = Some evt"
    and dm: "depth (py_get mp key) \<le> n" and de: "depth evt \<le> n"
  shows "if is_container evt \<and> is_container (py_get c key) then
           (case dict_get mp key of
              None \<Rightarrow> loop_body_reads n cfg h ca ea m key = Inl KeyError
            | Some mvt \<Rightarrow>
                (\<exists>mv ev. loop_body_reads n cfg h ca ea m key = Inr (Recurse mv ev)
                   \<and> reads Y h mv mvt \<and> reads Y h ev evt))
         else if merge_type cfg = ''present'' then
           (if evt = PNone then loop_body_reads n cfg h ca ea m key = Inr Skip
            else (\<exists>ev. loop_body_reads n cfg h ca ea m key = Inr (Store ev) \<and> reads Y h ev evt))
         else if merge_type cfg = ''absent'' then
           loop_body_reads n cfg h ca ea m key =
             Inr (if py_eq (py_get mp key) evt then Pop else Skip)
         else loop_body_reads n cfg h ca ea m key = Inl TypeError"
proof -
  from reads_items_get_Some [OF ea(2) ev] obtain ev
    where ev': "dict_get ekvs key = Some ev" and rev: "reads Y h ev evt" by blast
  have eg: "get_h h ea key = Inr ev" "getitem_h h ea key = Inr ev"
    using ea(1) ev' by (simp_all add: get_h_def getitem_h_def)
  have ce: "is_container_h h ev = is_container evt" using rev by (rule reads_is_container)
  define cg where "cg = (case dict_get ckvs key of None \<Rightarrow> HNone | Some v \<Rightarrow> v)"
  have rcg: "reads Y h cg (py_get c key)" unfolding cg_def using ca(2) by (rule reads_items_py_get)
  have cgh: "get_h h ca key = Inr cg" using ca(1) by (simp add: get_h_def cg_def)
  have cc: "is_container_h h cg = is_container (py_get c key)"
    using rcg by (rule reads_is_container)
  define mg where "mg = (case dict_get mkvs key of None \<Rightarrow> HNone | Some v \<Rightarrow> v)"
  have rmg: "reads Y h mg (py_get mp key)" unfolding mg_def using ma(2) by (rule reads_items_py_get)
  have mgh: "get_h h m key = Inr mg" using ma(1) by (simp add: get_h_def mg_def)
  have eq: "eq_h n h mg ev = Inr (py_eq (py_get mp key) evt)"
    using reads_tree_of(1) [OF rmg dm] reads_tree_of(1) [OF rev de] by (simp add: eq_h_def)
  have none: "ev = HNone \<longleftrightarrow> evt = PNone" using rev by (rule reads_HNone)
  show ?thesis
  proof (cases "is_container evt \<and> is_container (py_get c key)")
    case True
    show ?thesis
    proof (cases "dict_get mp key")
      case None
      with ma(2) have "dict_get mkvs key = None" by (rule reads_items_get_None)
      with ma(1) have "getitem_h h m key = Inl KeyError" by (simp add: getitem_h_def)
      with True None eg ce cgh cc show ?thesis by (simp add: loop_body_reads_def)
    next
      case (Some mvt)
      from reads_items_get_Some [OF ma(2) Some] obtain mv
        where "dict_get mkvs key = Some mv" and rmv: "reads Y h mv mvt" by blast
      with ma(1) have "getitem_h h m key = Inr mv" by (simp add: getitem_h_def)
      with True Some eg ce cgh cc rmv rev show ?thesis by (simp add: loop_body_reads_def)
    qed
  next
    case False
    then have nc: "\<not> (is_container_h h ev \<and> is_container_h h cg)" using ce cc by simp
    show ?thesis
      using False nc eg cgh mgh eq none rev
      by (auto simp: loop_body_reads_def)
  qed
qed

lemma dict_at_kept: "kept h h' \<Longrightarrow> dict_at h a = Some kvs \<Longrightarrow> dict_at h' a = Some kvs"
  by (frule dict_at_less) (auto simp: kept_def intro: dict_at_frame)

lemma dict_at_kept_but:
  "kept_but m h h' \<Longrightarrow> a \<noteq> m \<Longrightarrow> dict_at h a = Some kvs \<Longrightarrow> dict_at h' a = Some kvs"
  by (frule dict_at_less) (auto simp: kept_but_def intro: dict_at_frame)

lemma dict_at_update: "m < length h \<Longrightarrow> dict_at (h[m := HDict kvs]) m = Some kvs"
  by (simp add: dict_at_def obj_at_def)

lemma list_at_append: "list_at (h @ [HList xs]) (length h) = Some xs"
  by (simp add: list_at_def obj_at_def)

lemma reads_new_list:
  assumes "reads_list X h xs ts" and "X \<subseteq> {..<length h}"
  shows "reads X (h @ [HList xs]) (HRef (length h)) (PList ts)"
proof -
  from assms(1) have "reads_list X (h @ [HList xs]) xs ts"
    by (rule reads_kept(2) [OF kept_append])
  moreover from assms(2) have "length h \<notin> X" by auto
  ultimately show ?thesis by (auto simp: reads_iffs list_at_append)
qed

lemma value_diff_sim:
  assumes rc: "reads X h (HRef c) (PList lc)" and re: "reads X h (HRef e) (PList le)"
    and dc: "depth_list lc \<le> n" and de: "depth_list le \<le> n" and X: "X \<subseteq> {..<length h}"
  shows "sim X (get_new_merged_list_with_value_diff_h n cfg h c e)
           (map_sum id PList (get_new_merged_list_with_value_diff cfg lc le))"
proof -
  from rc obtain cs where cat: "list_at h c = Some cs" and rcs: "reads_list X h cs lc"
    by (auto simp: reads_iffs)
  from re obtain es where eat: "list_at h e = Some es" and res: "reads_list X h es le"
    by (auto simp: reads_iffs)
  from rcs dc have tc: "trees_of n h cs = Some lc" by (rule reads_tree_of(2))
  from res de have te: "trees_of n h es = Some le" by (rule reads_tree_of(2))
  have p: "reads X (h @ [HList (cs @ map fst (filter (\<lambda>(v, t). \<not> py_in t lc) (zip es le)))])
             (HRef (length h)) (PList (lc @ filter (\<lambda>elem. \<not> py_in elem lc) le))"
    using reads_list_append [OF rcs reads_list_filter [OF res]] X by (rule reads_new_list)
  have a: "reads X (h @ [HList (map fst (filter (\<lambda>(v, t). \<not> py_in t le) (zip cs lc)))])
             (HRef (length h)) (PList (filter (\<lambda>elem. \<not> py_in elem le) lc))"
    using reads_list_filter [OF rcs] X by (rule reads_new_list)
  show ?thesis
    using cat eat tc te p a
    by (simp add: get_new_merged_list_with_value_diff_h_def
          get_new_merged_list_with_value_diff_def)
qed

lemma merge_sim:
  "reads X h current tc \<Longrightarrow> reads X h expected te \<Longrightarrow> depth tc < n \<Longrightarrow> depth te < n \<Longrightarrow>
     wf_val te \<Longrightarrow> X \<subseteq> {..<length h} \<Longrightarrow>
     sim X (get_new_merged_data_h n cfg h current expected) (get_new_merged_data cfg tc te)"
  "reads X h (HRef c) (PDict dc) \<Longrightarrow> reads X h (HRef e) (PDict de) \<Longrightarrow>
     depth_items dc < n \<Longrightarrow> depth_items de < n \<Longrightarrow> distinct (map fst de) \<Longrightarrow> wf_items de \<Longrightarrow>
     X \<subseteq> {..<length h} \<Longrightarrow>
     sim X (get_new_merged_dict_h n cfg h c e) (map_sum id PDict (get_new_merged_dict cfg dc de))"
  "m < length h \<Longrightarrow> m \<notin> X \<Longrightarrow> X \<subseteq> {..<length h} \<Longrightarrow> c \<noteq> m \<Longrightarrow> e \<noteq> m \<Longrightarrow>
     dict_at h c = Some ckvs \<Longrightarrow> reads_items (insert m X) h ckvs dc \<Longrightarrow>
     dict_at h e = Some ekvs \<Longrightarrow> reads_items (insert m X) h ekvs de \<Longrightarrow>
     dict_at h m = Some mkvs \<Longrightarrow> reads_items (insert m X) h mkvs mp \<Longrightarrow>
     de = pre @ rest \<Longrightarrow> keys = map fst rest \<Longrightarrow> distinct (map fst de) \<Longrightarrow> wf_items de \<Longrightarrow>
     depth_items dc < n \<Longrightarrow> depth_items de < n \<Longrightarrow>
     (\<forall>k \<in> set keys. dict_get mp k = dict_get dc k) \<Longrightarrow>
     (case merged_dict_loop cfg dc mp rest of
        Inl err \<Rightarrow> fst (merged_dict_loop_h n cfg h c e m keys) = Inl err
      | Inr mp' \<Rightarrow>
          fst (merged_dict_loop_h n cfg h c e m keys) = Inr ()
        \<and> (\<exists>mkvs'. dict_at (snd (merged_dict_loop_h n cfg h c e m keys)) m = Some mkvs'
             \<and> reads_items (insert m X) (snd (merged_dict_loop_h n cfg h c e m keys)) mkvs' mp'))"
  "reads X h (HRef c) (PList lc) \<Longrightarrow> reads X h (HRef e) (PList le) \<Longrightarrow>
     depth_list lc < n \<Longrightarrow> depth_list le < n \<Longrightarrow> wf_list le \<Longrightarrow> X \<subseteq> {..<length h} \<Longrightarrow>
     sim X (get_new_merged_list_h n cfg h c e) (map_sum id PList (get_new_merged_list cfg lc le))"
  "reads X h (HRef c) (PList lc) \<Longrightarrow> reads X h (HRef e) (PList le) \<Longrightarrow>
     depth_list lc < n \<Longrightarrow> depth_list le < n \<Longrightarrow> wf_list le \<Longrightarrow> X \<subseteq> {..<length h} \<Longrightarrow>
     sim X (get_new_merged_list_with_index_diff_h n cfg h c e)
       (map_sum id PList (get_new_merged_list_with_index_diff cfg lc le))"
proof (induction n cfg h current expected and n cfg h c e and n cfg h c e m keys
         and n cfg h c e and n cfg h c e
       arbitrary: X tc te and X dc de and X dc de mp pre rest ckvs ekvs mkvs
         and X lc le and X lc le
       rule: get_new_merged_data_h_get_new_merged_dict_h_merged_dict_loop_h_get_new_merged_list_h_get_new_merged_list_with_index_diff_h.induct)
  case (1 cfg h current expected)
  then show ?case by simp
next
  case (2 n cfg h current expected)
  note rc = "2.prems"(1) and re = "2.prems"(2) and X = "2.prems"(6)
  from "2.prems"(3,4) have dc: "depth tc \<le> n" and de: "depth te \<le> n" by simp_all
  have ii: "isinstance_h h current (type_of_h h expected) = isinstance tc (type_of te)"
    using rc re by (rule reads_isinstance)
  have cpe: "sim X (deepcopy_h n h expected) (Inr te)" using re de X by (rule deepcopy_reads)
  have cpc: "sim X (deepcopy_h n h current) (Inr tc)" using rc dc X by (rule deepcopy_reads)
  show ?case
  proof (cases "merge_type cfg = ''identic'' \<or> \<not> isinstance tc (type_of te)")
    case True
    with ii cpe cpc show ?thesis
      by (auto simp: get_new_merged_data_h.simps get_new_merged_data.simps)
  next
    case False
    then have ni: "merge_type cfg \<noteq> ''identic''" and inst: "isinstance tc (type_of te)"
      by simp_all
    from inst ii have insth: "\<not> \<not> isinstance_h h current (type_of_h h expected)" by simp
    show ?thesis
    proof (cases "is_container tc")
      case False
      with rc have "\<forall>a. current \<noteq> HRef a" by (cases tc) auto
      with False ni inst ii show ?thesis
        by (cases tc; cases current)
           (simp_all add: get_new_merged_data_h.simps get_new_merged_data.simps)
    next
      case True
      then consider lc where "tc = PList lc" | dc where "tc = PDict dc" by (cases tc) auto
      then show ?thesis
      proof cases
        case 1
        with inst obtain le where te: "te = PList le" by (cases te) (auto simp: isinstance_def)
        from rc 1 obtain ca where c: "current = HRef ca" by (auto simp: reads_iffs)
        from re te obtain ea where e: "expected = HRef ea" by (auto simp: reads_iffs)
        have tl: "type_of_h h current = TList" using reads_type_of [OF rc] 1 by simp
        from rc re have r: "reads X h (HRef ca) (PList lc)" "reads X h (HRef ea) (PList le)"
          by (simp_all only: 1 te c e)
        from "2.prems"(3,4,5) have d: "depth_list lc < n" "depth_list le < n" "wf_list le"
          by (simp_all add: 1 te)
        have eqh: "get_new_merged_data_h (Suc n) cfg h current expected =
            get_new_merged_list_h n cfg h ca ea"
          using ni inst ii 1 te c e tl by (simp add: get_new_merged_data_h.simps)
        have eqp: "get_new_merged_data cfg tc te =
            map_sum id PList (get_new_merged_list cfg lc le)"
          using ni inst 1 te by (simp add: get_new_merged_data.simps)
        show ?thesis
          unfolding eqh eqp by (rule "2.IH"(1) [OF ni insth refl c e tl r d X])
      next
        case 2
        with inst obtain de where te: "te = PDict de" by (cases te) (auto simp: isinstance_def)
        from rc 2 obtain ca where c: "current = HRef ca" by (auto simp: reads_iffs)
        from re te obtain ea where e: "expected = HRef ea" by (auto simp: reads_iffs)
        have tl: "type_of_h h current \<noteq> TList" using reads_type_of [OF rc] 2 by simp
        from rc re have r: "reads X h (HRef ca) (PDict dc)" "reads X h (HRef ea) (PDict de)"
          by (simp_all only: 2 te c e)
        from "2.prems"(3,4,5) have d: "depth_items dc < n" "depth_items de < n"
          "distinct (map fst de)" "wf_items de"
          by (simp_all add: 2 te)
        have eqh: "get_new_merged_data_h (Suc n) cfg h current expected =
            get_new_merged_dict_h n cfg h ca ea"
          using ni inst ii 2 te c e tl by (simp add: get_new_merged_data_h.simps)
        have eqp: "get_new_merged_data cfg tc te =
            map_sum id PDict (get_new_merged_dict cfg dc de)"
          using ni inst 2 te by (simp add: get_new_merged_data.simps)
        show ?thesis
          unfolding eqh eqp by (rule "2.IH"(2) [OF ni insth refl c e tl r d X])
      qed
    qed
  qed
next
  case (3 n cfg h current expected)
  note rc = "3.prems"(1) and re = "3.prems"(2) and X = "3.prems"(7)
  show ?case
  proof (cases "merge_type cfg = ''identic''")
    case True
    from "3.prems"(4) have "depth (PDict de) \<le> n" by simp
    with re have "sim X (deepcopy_h n h (HRef expected)) (Inr (PDict de))"
      using X by (rule deepcopy_reads)
    with True show ?thesis
      by (simp add: get_new_merged_dict_h.simps get_new_merged_dict.simps)
  next
    case False
    from deepcopy_dict_reads [OF rc "3.prems"(3) X] obtain m h1 mkvs where
      cp: "deepcopy_h n h (HRef current) = (Inr (HRef m), h1)"
      and fresh: "length h \<le> m" "m < length h1"
      and k1: "kept h h1" and mat: "dict_at h1 m = Some mkvs"
      and rm: "reads_items (insert m X) h1 mkvs dc" by blast
    from rc obtain ckvs where cat: "dict_at h current = Some ckvs"
      and rck: "reads_items X h ckvs dc" by (auto simp: reads_iffs)
    from re obtain ekvs where eat: "dict_at h expected = Some ekvs"
      and rek: "reads_items X h ekvs de" by (auto simp: reads_iffs)
    have avoid: "\<forall>a \<in> insert m X. a \<in> X \<or> length h \<le> a" using fresh by auto
    have rck1: "reads_items (insert m X) h1 ckvs dc"
      using reads_kept(3) [OF k1 reads_avoid(3) [OF rck avoid]] .
    have rek1: "reads_items (insert m X) h1 ekvs de"
      using reads_kept(3) [OF k1 reads_avoid(3) [OF rek avoid]] .
    have cat1: "dict_at h1 current = Some ckvs" using k1 cat by (rule dict_at_kept)
    have eat1: "dict_at h1 expected = Some ekvs" using k1 eat by (rule dict_at_kept)
    from cat eat fresh have ne: "current \<noteq> m" "expected \<noteq> m"
      by (auto dest: dict_at_less)
    from X fresh have mX: "m \<notin> X" by auto
    from X k1 have X1: "X \<subseteq> {..<length h1}" by (auto simp: kept_def)
    have app: "de = [] @ de" by simp
    have keys: "map fst ekvs = map fst de" using rek by (rule reads_items_keys)
    have un: "\<forall>k \<in> set (map fst ekvs). dict_get dc k = dict_get dc k" by simp
    let ?r = "merged_dict_loop_h n cfg h1 current expected m (map fst ekvs)"
    note loop = "3.IH" [OF False cp [symmetric] refl refl eat1 fresh(2) mX X1 ne cat1 rck1
        eat1 rek1 mat rm app keys "3.prems"(5,6,3,4) un]
    obtain out h2 where r: "?r = (out, h2)" by (cases ?r)
    show ?thesis
    proof (cases "merged_dict_loop cfg dc dc de")
      case (Inl err)
      with loop r have "out = Inl err" by simp
      with False cp eat1 r Inl show ?thesis
        by (simp add: get_new_merged_dict_h.simps get_new_merged_dict.simps)
    next
      case (Inr mp')
      with loop r obtain mkvs' where out: "out = Inr ()"
        and mat2: "dict_at h2 m = Some mkvs'"
        and rm2: "reads_items (insert m X) h2 mkvs' mp'" by auto
      from rm2 have "reads_items X h2 mkvs' mp'" by (rule reads_mono(3) [rotated]) auto
      with mat2 mX have "reads X h2 (HRef m) (PDict mp')" by (auto simp: reads_iffs)
      with False cp eat1 r Inr out show ?thesis
        by (simp add: get_new_merged_dict_h.simps get_new_merged_dict.simps)
    qed
  qed
next
  case (4 n cfg h current expected merged)
  from "4.prems"(13) have "rest = []" by simp
  with "4.prems"(10,11) show ?case
    by (simp add: merged_dict_loop_h.simps merged_dict_loop.simps)
next
  case (5 n cfg h current expected merged key keys)
  let ?Y = "insert merged X"
  note len = "5.prems"(1) and mX = "5.prems"(2) and X = "5.prems"(3)
    and cm = "5.prems"(4) and em = "5.prems"(5)
    and cat = "5.prems"(6) and rck = "5.prems"(7)
    and eat = "5.prems"(8) and rek = "5.prems"(9)
    and mat = "5.prems"(10) and rm = "5.prems"(11)
    and dist = "5.prems"(14) and wf = "5.prems"(15)
    and ddc = "5.prems"(16) and dde = "5.prems"(17)
  from "5.prems"(13) obtain evt rest' where rest: "rest = (key, evt) # rest'"
    and keys: "keys = map fst rest'" by (cases rest) auto
  from "5.prems"(12) rest have de: "de = pre @ (key, evt) # rest'" by simp
  then have app: "de = (pre @ [(key, evt)]) @ rest'" by simp
  from dist de have ev: "dict_get de key = Some evt"
    by (simp only: dict_get_append_distinct)
  from dist de keys have fresh_key: "key \<notin> set keys" by auto
  from wf de have wfev: "wf_val evt" by (auto simp: wf_items_iff)
  from depth_dict_get [OF ev] dde have dev: "depth evt < n" by simp
  from "5.prems"(18) have same: "dict_get mp key = dict_get dc key" by simp
  then have pg: "py_get mp key = py_get dc key" by (simp add: py_get_def)
  from depth_py_get [of dc key] ddc pg have dmg: "depth (py_get mp key) < n" by simp
  from X len have Y: "?Y \<subseteq> {..<length h}" by auto
  note lbr = loop_body_reads_sim [OF cat rck eat rek mat rm ev less_imp_le [OF dmg]
      less_imp_le [OF dev], of cfg]
  have inv: "merged < length h2 \<and> X \<subseteq> {..<length h2}
        \<and> dict_at h2 current = Some ckvs \<and> reads_items ?Y h2 ckvs dc
        \<and> dict_at h2 expected = Some ekvs \<and> reads_items ?Y h2 ekvs de"
    if kb: "kept_but merged h h2" for h2
  proof -
    from kb have l: "length h \<le> length h2" by (simp add: kept_but_def)
    have m: "merged \<in> ?Y" by simp
    from l len X have "merged < length h2" "X \<subseteq> {..<length h2}" by auto
    moreover have "dict_at h2 current = Some ckvs" using kb cm cat by (rule dict_at_kept_but)
    moreover have "dict_at h2 expected = Some ekvs" using kb em eat by (rule dict_at_kept_but)
    moreover have "reads_items ?Y h2 ckvs dc" using kb m rck by (rule reads_kept_but(3))
    moreover have "reads_items ?Y h2 ekvs de" using kb m rek by (rule reads_kept_but(3))
    ultimately show ?thesis by simp
  qed
  let ?goal = "\<lambda>res r. case res of
        Inl err \<Rightarrow> fst r = Inl err
      | Inr mp' \<Rightarrow> fst r = Inr ()
          \<and> (\<exists>mkvs'. dict_at (snd r) merged = Some mkvs' \<and> reads_items ?Y (snd r) mkvs' mp')"
  let ?lhs = "merged_dict_loop_h n cfg h current expected merged (key # keys)"
  let ?rhs = "merged_dict_loop cfg dc mp ((key, evt) # rest')"
  have "?goal ?rhs ?lhs"
  proof (cases "is_container evt \<and> is_container (py_get dc key)")
    case True
    show ?thesis
    proof (cases "dict_get mp key")
      case None
      with True lbr have "loop_body_reads n cfg h current expected merged key = Inl KeyError"
        by simp
      with True None show ?thesis
        by (simp add: merged_dict_loop_h.simps merged_dict_loop.simps)
    next
      case (Some mvt)
      with True lbr obtain mv ev' where
        act: "loop_body_reads n cfg h current expected merged key = Inr (Recurse mv ev')"
        and rmv: "reads ?Y h mv mvt" and rev: "reads ?Y h ev' evt" by auto
      from Some same depth_dict_get [of dc key mvt] ddc have dmv: "depth mvt < n" by simp
      note nested = "5.IH"(1) [OF act refl rmv rev dmv dev wfev Y]
      obtain out h1 where run: "get_new_merged_data_h n cfg h mv ev' = (out, h1)"
        by (cases "get_new_merged_data_h n cfg h mv ev'")
      from merge_keeps_heap(1) [of h n cfg mv ev'] run have k1: "kept h h1" by simp
      show ?thesis
      proof (cases "get_new_merged_data cfg mvt evt")
        case (Inl err)
        with nested run have "out = Inl err" by simp
        with True Some act run Inl show ?thesis
          by (simp add: merged_dict_loop_h.simps merged_dict_loop.simps)
      next
        case (Inr rt)
        with nested run obtain r where out: "out = Inr r" and rr: "reads ?Y h1 r rt" by auto
        have mat1: "dict_at h1 merged = Some mkvs" using k1 mat by (rule dict_at_kept)
        define h2 where "h2 = h1[merged := HDict (dict_set mkvs key r)]"
        from mat1 have set: "setitem_h h1 merged key r = Inr h2"
          by (simp add: setitem_h_def h2_def)
        have kb12: "kept_but merged h1 h2" by (simp add: h2_def)
        with kept_imp_kept_but [OF k1] have kb: "kept_but merged h h2"
          by (rule kept_but_trans)
        from k1 len have len1: "merged < length h1" by (simp add: kept_def)
        then have mat2: "dict_at h2 merged = Some (dict_set mkvs key r)"
          by (simp add: h2_def dict_at_update)
        have rm1: "reads_items ?Y h1 mkvs mp" using k1 rm by (rule reads_kept(3))
        have "reads_items ?Y h1 (dict_set mkvs key r) (dict_set mp key rt)"
          using rm1 rr by (rule reads_items_set)
        then have rm2: "reads_items ?Y h2 (dict_set mkvs key r) (dict_set mp key rt)"
          using kb12 by (rule reads_kept_but(3) [rotated 2]) simp
        have un: "\<forall>k \<in> set keys. dict_get (dict_set mp key rt) k = dict_get dc k"
          using "5.prems"(18) fresh_key by (auto simp: dict_get_dict_set)
        from inv [OF kb] have i: "merged < length h2" "X \<subseteq> {..<length h2}"
          "dict_at h2 current = Some ckvs" "reads_items ?Y h2 ckvs dc"
          "dict_at h2 expected = Some ekvs" "reads_items ?Y h2 ekvs de" by simp_all
        have eqh: "?lhs = merged_dict_loop_h n cfg h2 current expected merged keys"
          using act run out set by (simp add: merged_dict_loop_h.simps)
        have eqp: "?rhs = merged_dict_loop cfg dc (dict_set mp key rt) rest'"
          using True Some Inr by (simp add: merged_dict_loop.simps)
        show ?thesis
          unfolding eqh eqp
          by (rule "5.IH"(2) [OF act refl run [symmetric] out set i(1) mX i(2) cm em
                i(3,4,5,6) mat2 rm2 app keys dist wf ddc dde un])
      qed
    qed
  next
    case False
    then have nc: "(is_container evt \<and> is_container (py_get dc key)) = False" by simp
    show ?thesis
    proof (cases "merge_type cfg = ''present''")
      case present: True
      show ?thesis
      proof (cases "evt = PNone")
        case True
        with False present lbr
        have act: "loop_body_reads n cfg h current expected merged key = Inr Skip" by simp
        have un: "\<forall>k \<in> set keys. dict_get mp k = dict_get dc k"
          using "5.prems"(18) by simp
        have eqh: "?lhs = merged_dict_loop_h n cfg h current expected merged keys"
          using act by (simp add: merged_dict_loop_h.simps)
        have eqp: "?rhs = merged_dict_loop cfg dc mp rest'"
          using present True by (simp add: merged_dict_loop.simps nc)
        show ?thesis
          unfolding eqh eqp
          by (rule "5.IH"(4) [OF act refl len mX X cm em cat rck eat rek mat rm app keys
                dist wf ddc dde un])
      next
        case nn: False
        with False present lbr obtain ev' where
          act: "loop_body_reads n cfg h current expected merged key = Inr (Store ev')"
          and rev: "reads ?Y h ev' evt" by auto
        define h2 where "h2 = h[merged := HDict (dict_set mkvs key ev')]"
        from mat have set: "setitem_h h merged key ev' = Inr h2"
          by (simp add: setitem_h_def h2_def)
        have kb: "kept_but merged h h2" by (simp add: h2_def)
        from len have mat2: "dict_at h2 merged = Some (dict_set mkvs key ev')"
          by (simp add: h2_def dict_at_update)
        have "reads_items ?Y h (dict_set mkvs key ev') (dict_set mp key evt)"
          using rm rev by (rule reads_items_set)
        then have rm2: "reads_items ?Y h2 (dict_set mkvs key ev') (dict_set mp key evt)"
          using kb by (rule reads_kept_but(3) [rotated 2]) simp
        have un: "\<forall>k \<in> set keys. dict_get (dict_set mp key evt) k = dict_get dc k"
          using "5.prems"(18) fresh_key by (auto simp: dict_get_dict_set)
        from inv [OF kb] have i: "merged < length h2" "X \<subseteq> {..<length h2}"
          "dict_at h2 current = Some ckvs" "reads_items ?Y h2 ckvs dc"
          "dict_at h2 expected = Some ekvs" "reads_items ?Y h2 ekvs de" by simp_all
        have eqh: "?lhs = merged_dict_loop_h n cfg h2 current expected merged keys"
          using act set by (simp add: merged_dict_loop_h.simps)
        have eqp: "?rhs = merged_dict_loop cfg dc (dict_set mp key evt) rest'"
          using present nn by (simp add: merged_dict_loop.simps nc)
        show ?thesis
          unfolding eqh eqp
          by (rule "5.IH"(3) [OF act refl set i(1) mX i(2) cm em i(3,4,5,6)
                mat2 rm2 app keys dist wf ddc dde un])
      qed
    next
      case np: False
      show ?thesis
      proof (cases "merge_type cfg = ''absent''")
        case absent: True
        show ?thesis
        proof (cases "py_eq (py_get mp key) evt")
          case eq: True
          with False np absent lbr
          have act: "loop_body_reads n cfg h current expected merged key = Inr Pop" by simp
          show ?thesis
          proof (cases "dict_pop mp key")
            case (Inl err)
            with reads_items_pop [OF rm, of key] have "dict_pop mkvs key = Inl err" by simp
            with mat have "pop_h h merged key = Inl err" by (simp add: pop_h_def)
            with np absent eq act Inl show ?thesis
              by (simp add: merged_dict_loop_h.simps merged_dict_loop.simps nc)
          next
            case (Inr mp2)
            with reads_items_pop [OF rm, of key] obtain kvs2 where
              pop: "dict_pop mkvs key = Inr kvs2" and r2: "reads_items ?Y h kvs2 mp2" by auto
            define h2 where "h2 = h[merged := HDict kvs2]"
            from mat pop have set: "pop_h h merged key = Inr h2"
              by (simp add: pop_h_def h2_def)
            have kb: "kept_but merged h h2" by (simp add: h2_def)
            from len have mat2: "dict_at h2 merged = Some kvs2"
              by (simp add: h2_def dict_at_update)
            from r2 have rm2: "reads_items ?Y h2 kvs2 mp2"
              using kb by (rule reads_kept_but(3) [rotated 2]) simp
            have un: "\<forall>k \<in> set keys. dict_get mp2 k = dict_get dc k"
              using "5.prems"(18) fresh_key by (auto simp: dict_get_dict_pop [OF Inr])
            from inv [OF kb] have i: "merged < length h2" "X \<subseteq> {..<length h2}"
              "dict_at h2 current = Some ckvs" "reads_items ?Y h2 ckvs dc"
              "dict_at h2 expected = Some ekvs" "reads_items ?Y h2 ekvs de" by simp_all
            have eqh: "?lhs = merged_dict_loop_h n cfg h2 current expected merged keys"
              using act set by (simp add: merged_dict_loop_h.simps)
            have eqp: "?rhs = merged_dict_loop cfg dc mp2 rest'"
              using np absent eq Inr by (simp add: merged_dict_loop.simps nc)
            show ?thesis
              unfolding eqh eqp
              by (rule "5.IH"(5) [OF act refl set i(1) mX i(2) cm em i(3,4,5,6)
                    mat2 rm2 app keys dist wf ddc dde un])
          qed
        next
          case ne: False
          with False np absent lbr
          have act: "loop_body_reads n cfg h current expected merged key = Inr Skip" by simp
          have un: "\<forall>k \<in> set keys. dict_get mp k = dict_get dc k"
            using "5.prems"(18) by simp
          have eqh: "?lhs = merged_dict_loop_h n cfg h current expected merged keys"
            using act by (simp add: merged_dict_loop_h.simps)
          have eqp: "?rhs = merged_dict_loop cfg dc mp rest'"
            using np absent ne by (simp add: merged_dict_loop.simps nc)
          show ?thesis
            unfolding eqh eqp
            by (rule "5.IH"(4) [OF act refl len mX X cm em cat rck eat rek mat rm app keys
                  dist wf ddc dde un])
        qed
      next
        case na: False
        with False np lbr
        have "loop_body_reads n cfg h current expected merged key = Inl TypeError" by simp
        with np na show ?thesis
          by (simp add: merged_dict_loop_h.simps merged_dict_loop.simps nc)
      qed
    qed
  qed
  then show ?case unfolding rest .
next
  case (6 n cfg h current expected)
  note rc = "6.prems"(1) and re = "6.prems"(2) and X = "6.prems"(6)
  show ?case
  proof (cases "merge_type cfg = ''identic''")
    case True
    from "6.prems"(4) have "depth (PList le) \<le> n" by simp
    with re have "sim X (deepcopy_h n h (HRef expected)) (Inr (PList le))"
      using X by (rule deepcopy_reads)
    with True show ?thesis
      by (simp add: get_new_merged_list_h.simps get_new_merged_list.simps)
  next
    case False
    show ?thesis
    proof (cases "list_diff_type cfg = ''value''")
      case True
      from "6.prems"(3,4) have "depth_list lc \<le> n" "depth_list le \<le> n" by simp_all
      with rc re have "sim X (get_new_merged_list_with_value_diff_h n cfg h current expected)
          (map_sum id PList (get_new_merged_list_with_value_diff cfg lc le))"
        using X by (rule value_diff_sim)
      moreover have "get_new_merged_list_h n cfg h current expected =
          get_new_merged_list_with_value_diff_h n cfg h current expected"
        using False True by (simp add: get_new_merged_list_h.simps)
      moreover have "get_new_merged_list cfg lc le =
          get_new_merged_list_with_value_diff cfg lc le"
        using False True by (simp add: get_new_merged_list.simps)
      ultimately show ?thesis by (simp only:)
    next
      case nv: False
      show ?thesis
      proof (cases "list_diff_type cfg = ''index''")
        case True
        note "6.IH" [OF False nv True "6.prems"]
        moreover have "get_new_merged_list_h n cfg h current expected =
            get_new_merged_list_with_index_diff_h n cfg h current expected"
          using False nv True by (simp add: get_new_merged_list_h.simps)
        moreover have "get_new_merged_list cfg lc le =
            get_new_merged_list_with_index_diff cfg lc le"
          using False nv True by (simp add: get_new_merged_list.simps)
        ultimately show ?thesis by (simp only:)
      next
        case ni: False
        with False nv show ?thesis
          by (simp add: get_new_merged_list_h.simps get_new_merged_list.simps)
      qed
    qed
  qed
next
  case (7 n cfg h current expected)
  note rc = "7.prems"(1) and re = "7.prems"(2) and X = "7.prems"(6)
  from rc obtain cs where cX: "current \<notin> X" and cat: "list_at h current = Some cs"
    and rcs: "reads_list X h cs lc" by (auto simp: reads_iffs)
  from re obtain es where eX: "expected \<notin> X" and eat: "list_at h expected = Some es"
    and res: "reads_list X h es le" by (auto simp: reads_iffs)
  define h0 where "h0 = h @ [HDict (convert_list_to_dict cs), HDict (convert_list_to_dict es)]"
  have k0: "kept h h0" by (simp add: h0_def)
  from X have nX: "length h \<notin> X" "Suc (length h) \<notin> X" by auto
  have X0: "X \<subseteq> {..<length h0}" using X by (auto simp: h0_def)
  have "reads_items X h0 (convert_list_to_dict cs) (convert_list_to_dict lc)"
    using reads_kept(2) [OF k0 rcs] by (rule reads_items_convert)
  moreover have "dict_at h0 (length h) = Some (convert_list_to_dict cs)"
    by (simp add: h0_def dict_at_def obj_at_def)
  ultimately have r0c: "reads X h0 (HRef (length h)) (PDict (convert_list_to_dict lc))"
    using nX by (auto simp: reads_iffs)
  have "reads_items X h0 (convert_list_to_dict es) (convert_list_to_dict le)"
    using reads_kept(2) [OF k0 res] by (rule reads_items_convert)
  moreover have "dict_at h0 (Suc (length h)) = Some (convert_list_to_dict es)"
    by (simp add: h0_def dict_at_def obj_at_def nth_append)
  ultimately have r0e: "reads X h0 (HRef (Suc (length h))) (PDict (convert_list_to_dict le))"
    using nX by (auto simp: reads_iffs)
  let ?r = "get_new_merged_dict_h n cfg h0 (length h) (Suc (length h))"
  have nested: "sim X ?r (map_sum id PDict
      (get_new_merged_dict cfg (convert_list_to_dict lc) (convert_list_to_dict le)))"
    unfolding h0_def
    by (rule "7.IH" [OF refl cat eat r0c [unfolded h0_def] r0e [unfolded h0_def] _ _ _ _
          X0 [unfolded h0_def]])
       (use "7.prems"(3,4,5) in \<open>simp_all add: distinct_convert_list_to_dict\<close>)
  obtain out h1 where r: "?r = (out, h1)" by (cases ?r)
  from merge_keeps_heap(2) [of h0 n cfg "length h" "Suc (length h)"] r have k1: "kept h0 h1"
    by simp
  show ?case
  proof (cases "get_new_merged_dict cfg (convert_list_to_dict lc) (convert_list_to_dict le)")
    case (Inl err)
    with nested r have "out = Inl err" by simp
    with cat eat r Inl show ?thesis
      by (simp add: get_new_merged_list_with_index_diff_h.simps
            get_new_merged_list_with_index_diff.simps h0_def)
  next
    case (Inr d')
    with nested r obtain md kvs where out: "out = Inr (HRef md)"
      and mat: "dict_at h1 md = Some kvs" and rk: "reads_items X h1 kvs d'"
      by (auto simp: reads_iffs)
    from X0 k1 have "X \<subseteq> {..<length h1}" by (auto simp: kept_def)
    with reads_list_convert [OF rk]
    have "reads X (h1 @ [HList (convert_dict_to_list kvs)]) (HRef (length h1))
            (PList (convert_dict_to_list d'))"
      by (rule reads_new_list)
    with cat eat r Inr out mat show ?thesis
      by (simp add: get_new_merged_list_with_index_diff_h.simps
            get_new_merged_list_with_index_diff.simps h0_def)
  qed
qed

subsection \<open>The errors of a merge\<close>

text \<open>
  Claim C6 (closed error taxonomy) fails for two operands that are not containers: two
  integers raise \<open>AttributeError\<close>, which is neither of the two errors of the
  taxonomy.
\<close>

theorem scalar_operands_raise_attribute_error:
  "get_new_merged_data \<lparr>merge_type = ''absent'', list_diff_type = ''index''\<rparr>
     (PInt 1) (PInt 1) = Inl AttributeError"
  by (simp add: eval_simps)

text \<open>The merge itself never raises \<open>ValueError\<close>: only the setters do.\<close>

lemma deepcopy_no_value_error: "fst (deepcopy_h n h v) \<noteq> Inl ValueError"
  by (auto simp: deepcopy_h_def split: option.splits prod.splits)

lemma get_h_no_value_error: "get_h h a k \<noteq> Inl ValueError"
  by (auto simp: get_h_def split: option.splits)

lemma getitem_h_no_value_error: "getitem_h h a k \<noteq> Inl ValueError"
  by (auto simp: getitem_h_def split: option.splits)

lemma eq_h_no_value_error: "eq_h n h a b \<noteq> Inl ValueError"
  by (auto simp: eq_h_def split: option.splits)

lemma setitem_h_no_value_error: "setitem_h h a k v \<noteq> Inl ValueError"
  by (auto simp: setitem_h_def split: option.splits)

lemma pop_h_no_value_error: "pop_h h a k \<noteq> Inl ValueError"
  by (auto simp: pop_h_def dict_pop_def split: option.splits)

lemma loop_body_reads_no_value_error:
  "loop_body_reads n cfg h c e m k \<noteq> Inl ValueError"
proof
  assume a: "loop_body_reads n cfg h c e m k = Inl ValueError"
  note no = get_h_no_value_error getitem_h_no_value_error eq_h_no_value_error
  from a show False
    unfolding loop_body_reads_def
    by (cases "get_h h e k"; cases "get_h h c k"; cases "getitem_h h m k";
        cases "getitem_h h e k"; cases "get_h h m k")
       (auto simp: no split: if_splits sum.splits bool.splits dest: no [THEN notE])
qed

lemma value_diff_no_value_error:
  "fst (get_new_merged_list_with_value_diff_h n cfg h c e) \<noteq> Inl ValueError"
  by (auto simp: get_new_merged_list_with_value_diff_h_def split: option.splits)

lemma merge_no_value_error:
  "fst (get_new_merged_data_h n cfg h current expected) \<noteq> Inl ValueError"
  "fst (get_new_merged_dict_h n cfg h c e) \<noteq> Inl ValueError"
  "fst (merged_dict_loop_h n cfg h c e m keys) \<noteq> Inl ValueError"
  "fst (get_new_merged_list_h n cfg h c e) \<noteq> Inl ValueError"
  "fst (get_new_merged_list_with_index_diff_h n cfg h c e) \<noteq> Inl ValueError"
proof (induction n cfg h current expected and n cfg h c e and n cfg h c e m keys
         and n cfg h c e and n cfg h c e
       rule: get_new_merged_data_h_get_new_merged_dict_h_merged_dict_loop_h_get_new_merged_list_h_get_new_merged_list_with_index_diff_h.induct)
  case (1 cfg h current expected)
  show ?case by (simp add: get_new_merged_data_h.simps)
next
  case (2 n cfg h current expected)
  then show ?case
    by (auto simp: get_new_merged_data_h.simps deepcopy_no_value_error split: hval.splits)
next
  case (3 n cfg h current expected)
  show ?case
  proof (cases "merge_type cfg = ''identic''")
    case True
    then show ?thesis by (simp add: get_new_merged_dict_h.simps deepcopy_no_value_error)
  next
    case False
    obtain out h1 where dc: "deepcopy_h n h (HRef current) = (out, h1)"
      by (cases "deepcopy_h n h (HRef current)")
    with deepcopy_no_value_error [of n h "HRef current"] have ne: "out \<noteq> Inl ValueError" by simp
    show ?thesis
    proof (cases out)
      case (Inl err)
      with False dc ne show ?thesis by (simp add: get_new_merged_dict_h.simps)
    next
      case (Inr v)
      show ?thesis
      proof (cases v)
        case (HRef merged)
        show ?thesis
        proof (cases "dict_at h1 expected")
          case None
          with False dc Inr HRef show ?thesis by (simp add: get_new_merged_dict_h.simps)
        next
          case (Some eitems)
          from "3.IH" [OF False dc [symmetric] Inr HRef Some] False dc Inr HRef Some
          show ?thesis
            by (auto simp: get_new_merged_dict_h.simps split: prod.splits sum.splits)
        qed
      qed (use False dc Inr in \<open>simp_all add: get_new_merged_dict_h.simps\<close>)
    qed
  qed
next
  case (4 n cfg h current expected merged)
  show ?case by (simp add: merged_dict_loop_h.simps)
next
  case (5 n cfg h current expected merged key keys)
  show ?case
  proof (cases "loop_body_reads n cfg h current expected merged key")
    case (Inl err)
    with loop_body_reads_no_value_error [of n cfg h current expected merged key]
    show ?thesis by (auto simp: merged_dict_loop_h.simps)
  next
    case (Inr act)
    show ?thesis
    proof (cases act)
      case (Recurse mv ev)
      obtain out h1 where run: "get_new_merged_data_h n cfg h mv ev = (out, h1)"
        by (cases "get_new_merged_data_h n cfg h mv ev")
      from "5.IH"(1) [OF Inr Recurse] run have ne: "out \<noteq> Inl ValueError" by simp
      show ?thesis
      proof (cases out)
        case (Inl err)
        with Inr Recurse run ne show ?thesis by (simp add: merged_dict_loop_h.simps)
      next
        case r: (Inr r)
        show ?thesis
        proof (cases "setitem_h h1 merged key r")
          case (Inl err)
          with setitem_h_no_value_error [of h1 merged key r] Inr Recurse run r show ?thesis
            by (auto simp: merged_dict_loop_h.simps)
        next
          case h2: (Inr h2)
          from "5.IH"(2) [OF Inr Recurse run [symmetric] r h2] Inr Recurse run r h2
          show ?thesis by (simp add: merged_dict_loop_h.simps)
        qed
      qed
    next
      case (Store ev)
      show ?thesis
      proof (cases "setitem_h h merged key ev")
        case (Inl err)
        with setitem_h_no_value_error [of h merged key ev] Inr Store show ?thesis
          by (auto simp: merged_dict_loop_h.simps)
      next
        case h1: (Inr h1)
        from "5.IH"(3) [OF Inr Store h1] Inr Store h1 show ?thesis
          by (simp add: merged_dict_loop_h.simps)
      qed
    next
      case Skip
      from "5.IH"(4) [OF Inr Skip] Inr Skip show ?thesis
        by (simp add: merged_dict_loop_h.simps)
    next
      case Pop
      show ?thesis
      proof (cases "pop_h h merged key")
        case (Inl err)
        with pop_h_no_value_error [of h merged key] Inr Pop show ?thesis
          by (auto simp: merged_dict_loop_h.simps)
      next
        case h1: (Inr h1)
        from "5.IH"(5) [OF Inr Pop h1] Inr Pop h1 show ?thesis
          by (simp add: merged_dict_loop_h.simps)
      qed
    qed
  qed
next
  case (6 n cfg h current expected)
  then show ?case
    by (auto simp: get_new_merged_list_h.simps deepcopy_no_value_error
          value_diff_no_value_error)
next
  case (7 n cfg h current expected)
  show ?case
  proof (cases "list_at h current")
    case None
    then show ?thesis by (simp add: get_new_merged_list_with_index_diff_h.simps)
  next
    case cs: (Some cs)
    show ?thesis
    proof (cases "list_at h expected")
      case None
      with cs show ?thesis by (simp add: get_new_merged_list_with_index_diff_h.simps)
    next
      case es: (Some es)
      from "7.IH" [OF refl cs es] cs es show ?thesis
        by (auto simp: get_new_merged_list_with_index_diff_h.simps
            split: prod.splits sum.splits hval.splits option.splits)
    qed
  qed
qed

text \<open>
  Claim C6 as amended. Let the configuration be one the constructor accepts, and let a merge
  be called on any two operands in any store \<open>h\<close>, with outcome \<open>out\<close> (a result or an
  exception) and final store \<open>h'\<close>. Then every object of \<open>h\<close> is unchanged in \<open>h'\<close>: the
  operands and all they reach are as they were, whether the call returned or raised. The
  call raises no \<open>ValueError\<close>. Moreover, if the operands stand for two values \<open>tc\<close> and
  \<open>te\<close> nested less deep than the room \<open>n\<close> that the recursion limit leaves, at least
  one of them is a dictionary or a list, \<open>te\<close> holds no key twice, and, under \<open>absent\<close>,
  every \<open>None\<close> that \<open>te\<close> holds at a visited key or position outside the recursion case
  stands at a key or position that \<open>tc\<close> holds (\<open>null_covered\<close>), then the call returns a
  reference that stands, in \<open>h'\<close>, for the result of the merge on values, or it raises
  \<open>TypeError\<close>; and it raises only when \<open>list_diff_type\<close> is neither \<open>value\<close> nor
  \<open>index\<close>.
\<close>

theorem merge_error_taxonomy:
  assumes "init mt ldt = Inr cfg"
    and "get_new_merged_data_h n cfg h current expected = (out, h')"
  shows "kept h h' \<and> out \<noteq> Inl ValueError
       \<and> (reads {} h current tc \<and> reads {} h expected te
            \<and> depth tc < n \<and> depth te < n
            \<and> (is_container tc \<or> is_container te) \<and> wf_val te
            \<and> (merge_type cfg = ''absent'' \<longrightarrow> null_covered cfg tc te)
          \<longrightarrow> (\<exists>v t. out = Inr v \<and> get_new_merged_data cfg tc te = Inr t \<and> reads {} h' v t)
            \<or> (out = Inl TypeError \<and> ldt \<notin> set [''value'', ''index'']))"
proof (intro conjI impI)
  from merge_keeps_heap(1) [of h n cfg current expected] assms(2) show "kept h h'" by simp
next
  from merge_no_value_error(1) [of n cfg h current expected] assms(2)
  show "out \<noteq> Inl ValueError" by simp
next
  assume a: "reads {} h current tc \<and> reads {} h expected te
            \<and> depth tc < n \<and> depth te < n
            \<and> (is_container tc \<or> is_container te) \<and> wf_val te
            \<and> (merge_type cfg = ''absent'' \<longrightarrow> null_covered cfg tc te)"
  from assms(1) have mt: "merge_type cfg \<in> set [''identic'', ''present'', ''absent'']"
    and ldt: "list_diff_type cfg = ldt"
    by (auto simp: init_Inr)
  from a have s: "sim {} (get_new_merged_data_h n cfg h current expected)
      (get_new_merged_data cfg tc te)"
    by (intro merge_sim(1)) simp_all
  from a have c: "completes cfg (get_new_merged_data cfg tc te)"
    by (intro merge_completes(1) mt) simp_all
  show "(\<exists>v t. out = Inr v \<and> get_new_merged_data cfg tc te = Inr t \<and> reads {} h' v t)
            \<or> (out = Inl TypeError \<and> ldt \<notin> set [''value'', ''index''])"
  proof (cases "get_new_merged_data cfg tc te")
    case (Inl err)
    with c ldt have "err = TypeError" "ldt \<notin> set [''value'', ''index'']"
      by (simp_all add: completes_def)
    with s Inl assms(2) show ?thesis by simp
  next
    case (Inr t)
    with s assms(2) show ?thesis by auto
  qed
qed

lemmas heap_eval_simps =
  get_new_merged_data_h.simps get_new_merged_dict_h.simps merged_dict_loop_h.simps
  get_new_merged_list_h.simps get_new_merged_list_with_index_diff_h.simps
  get_new_merged_list_with_value_diff_h_def loop_body_reads_def
  deepcopy_h_def get_h_def getitem_h_def setitem_h_def pop_h_def eq_h_def
  isinstance_h_def is_container_h_def dict_at_def list_at_def obj_at_def
  dict_get_def dict_pop_def convert_list_to_dict_def convert_dict_to_list_def


theorem merge_error_taxonomy_witness:
  "get_new_merged_data_h (Suc (Suc (Suc 0)))
     \<lparr>merge_type = ''absent'', list_diff_type = ''index''\<rparr>
     [HDict [(KStr ''B'', HInt 1), (KStr ''C'', HInt 2)],
      HDict [(KStr ''A'', HRef 0), (KStr ''D'', HNone)],
      HDict [(KStr ''B'', HInt 1)],
      HDict [(KStr ''A'', HRef 2), (KStr ''D'', HNone)]]
     (HRef 1) (HRef 3)
   = (Inr (HRef 5),
      [HDict [(KStr ''B'', HInt 1), (KStr ''C'', HInt 2)],
       HDict [(KStr ''A'', HRef 0), (KStr ''D'', HNone)],
       HDict [(KStr ''B'', HInt 1)],
       HDict [(KStr ''A'', HRef 2), (KStr ''D'', HNone)],
       HDict [(KStr ''B'', HInt 1), (KStr ''C'', HInt 2)],
       HDict [(KStr ''A'', HRef 6)],
       HDict [(KStr ''C'', HInt 2)]])
   \<and> reads {}
      [HDict [(KStr ''B'', HInt 1), (KStr ''C'', HInt 2)],
       HDict [(KStr ''A'', HRef 0), (KStr ''D'', HNone)],
       HDict [(KStr ''B'', HInt 1)],
       HDict [(KStr ''A'', HRef 2), (KStr ''D'', HNone)],
       HDict [(KStr ''B'', HInt 1), (KStr ''C'', HInt 2)],
       HDict [(KStr ''A'', HRef 6)],
       HDict [(KStr ''C'', HInt 2)]]
      (HRef 5) (PDict [(KStr ''A'', PDict [(KStr ''C'', PInt 2)])])"
proof -
  let ?cfg = "\<lparr>merge_type = ''absent'', list_diff_type = ''index''\<rparr>"
  let ?h = "[HDict [(KStr ''B'', HInt 1), (KStr ''C'', HInt 2)],
      HDict [(KStr ''A'', HRef 0), (KStr ''D'', HNone)],
      HDict [(KStr ''B'', HInt 1)],
      HDict [(KStr ''A'', HRef 2), (KStr ''D'', HNone)]]"
  let ?h' = "[HDict [(KStr ''B'', HInt 1), (KStr ''C'', HInt 2)],
       HDict [(KStr ''A'', HRef 0), (KStr ''D'', HNone)],
       HDict [(KStr ''B'', HInt 1)],
       HDict [(KStr ''A'', HRef 2), (KStr ''D'', HNone)],
       HDict [(KStr ''B'', HInt 1), (KStr ''C'', HInt 2)],
       HDict [(KStr ''A'', HRef 6)],
       HDict [(KStr ''C'', HInt 2)]]"
  let ?tc = "PDict [(KStr ''A'', PDict [(KStr ''B'', PInt 1), (KStr ''C'', PInt 2)]),
      (KStr ''D'', PNone)]"
  let ?te = "PDict [(KStr ''A'', PDict [(KStr ''B'', PInt 1)]), (KStr ''D'', PNone)]"
  have i: "init ''absent'' ''index'' = Inr ?cfg" by (simp add: init_Inr)
  have run: "get_new_merged_data_h (Suc (Suc (Suc 0))) ?cfg ?h (HRef 1) (HRef 3)
      = (Inr (HRef 5), ?h')"
    by (simp add: heap_eval_simps)
  have hyp: "reads {} ?h (HRef 1) ?tc \<and> reads {} ?h (HRef 3) ?te
      \<and> depth ?tc < Suc (Suc (Suc 0)) \<and> depth ?te < Suc (Suc (Suc 0))
      \<and> (is_container ?tc \<or> is_container ?te) \<and> wf_val ?te
      \<and> (merge_type ?cfg = ''absent'' \<longrightarrow> null_covered ?cfg ?tc ?te)"
    by (simp add: reads.simps reads_list.simps reads_items.simps obj_at_def
          null_covered.simps py_get_def dict_get_def)
  from merge_error_taxonomy [OF i run, THEN conjunct2, THEN conjunct2, THEN mp, OF hyp]
  obtain t where "get_new_merged_data ?cfg ?tc ?te = Inr t" and "reads {} ?h' (HRef 5) t"
    by auto
  moreover have "get_new_merged_data ?cfg ?tc ?te
      = Inr (PDict [(KStr ''A'', PDict [(KStr ''C'', PInt 2)])])"
    by (simp add: eval_simps)
  ultimately have "reads {} ?h' (HRef 5) (PDict [(KStr ''A'', PDict [(KStr ''C'', PInt 2)])])"
    by simp
  with run show ?thesis by (simp only:)
qed

text \<open>
  The specification's example of \<open>absent\<close> by index, \<open>[4, 5, 6]\<close> against
  \<open>[None, 7, 6]\<close>: the \<open>None\<close> stands at a position that \<open>current\<close> holds, so the
  example meets the condition of the theorem. On the store the call creates the two
  positional dictionaries (addresses 2 and 3), the copy \<open>merged\<close> (address 4), from which
  it removes position 2, and the result list (address 5); the two operands stay as they
  were.
\<close>

lemma absent_by_index_example_null_covered:
  "null_covered \<lparr>merge_type = ''absent'', list_diff_type = ''index''\<rparr>
     (PList [PInt 4, PInt 5, PInt 6]) (PList [PNone, PInt 7, PInt 6])"
  by (simp add: null_covered.simps convert_list_to_dict_def py_get_def dict_get_def)

lemma absent_by_index_example_on_store:
  "get_new_merged_data_h (Suc (Suc 0)) \<lparr>merge_type = ''absent'', list_diff_type = ''index''\<rparr>
     [HList [HInt 4, HInt 5, HInt 6], HList [HNone, HInt 7, HInt 6]] (HRef 0) (HRef 1)
   = (Inr (HRef 5),
      [HList [HInt 4, HInt 5, HInt 6], HList [HNone, HInt 7, HInt 6],
       HDict [(KInt 0, HInt 4), (KInt 1, HInt 5), (KInt 2, HInt 6)],
       HDict [(KInt 0, HNone), (KInt 1, HInt 7), (KInt 2, HInt 6)],
       HDict [(KInt 0, HInt 4), (KInt 1, HInt 5)],
       HList [HInt 4, HInt 5]])"
  by (simp add: heap_eval_simps)

text \<open>
  Under \<open>present\<close> the result shares objects with \<open>expected\<close>: \<open>merged[key] = expected[key]\<close>
  stores the object itself. Here the list at address 0 is held by \<open>expected\<close> (address 1)
  and by the result (address 3).
\<close>

lemma present_result_shares_with_expected:
  "get_new_merged_data_h (Suc (Suc 0)) \<lparr>merge_type = ''present'', list_diff_type = ''value''\<rparr>
     [HList [HInt 1], HDict [(KStr ''A'', HRef 0)], HDict []] (HRef 2) (HRef 1)
   = (Inr (HRef 3),
      [HList [HInt 1], HDict [(KStr ''A'', HRef 0)], HDict [],
       HDict [(KStr ''A'', HRef 0)]])"
  by (simp add: heap_eval_simps)

end
